theory Spec2Isabelle
  imports Complex_Main "HOL-Library.Code_Target_Nat" "HOL-Library.Sublist"
begin

section \<open>Strings\<close>

text \<open>
  A Python \<open>str\<close> is a sequence of Unicode code points. A code point is a natural
  number and a string is a list of them; \<open>ustr\<close> turns an ASCII literal into such a
  string.
\<close>

type_synonym ustring = "nat list"

definition ustr :: "string \<Rightarrow> ustring" where
  "ustr s = map of_char s"

text \<open>
  The whitespace of \<open>str.strip\<close>, \<open>str.isspace\<close> and of \<open>\s\<close> in a \<open>str\<close> pattern
  (CPython tests all three with the same predicate): U+0009..U+000D, U+001C..U+0020,
  U+0085, U+00A0, U+1680, U+2000..U+200A, U+2028, U+2029, U+202F, U+205F, U+3000.
\<close>

definition is_space :: "nat \<Rightarrow> bool" where
  "is_space c = ((9 \<le> c \<and> c \<le> 13) \<or> (28 \<le> c \<and> c \<le> 32) \<or> c = 133 \<or> c = 160
     \<or> c = 5760 \<or> (8192 \<le> c \<and> c \<le> 8202) \<or> c = 8232 \<or> c = 8233 \<or> c = 8239
     \<or> c = 8287 \<or> c = 12288)"

text \<open>
  The other character classes come from the Unicode database of the interpreter, which is
  not part of the repository: they are a parameter of every function that uses them.
  \<open>decimal\<close> is \<open>\d\<close> of a \<open>str\<close> pattern (category Nd), \<open>isdigit\<close> and \<open>isalpha\<close>
  are the methods of \<open>str\<close> on one character, \<open>str_lower\<close> is \<open>str.lower\<close>.
\<close>

record unicode_tables =
  decimal :: "nat \<Rightarrow> bool"
  isdigit :: "nat \<Rightarrow> bool"
  isalpha :: "nat \<Rightarrow> bool"
  str_lower :: "ustring \<Rightarrow> ustring"

definition ascii_upper :: "nat \<Rightarrow> bool" where
  "ascii_upper c = (65 \<le> c \<and> c \<le> 90)"

definition ascii_lower :: "nat \<Rightarrow> bool" where
  "ascii_lower c = (97 \<le> c \<and> c \<le> 122)"

definition ascii_letter :: "nat \<Rightarrow> bool" where
  "ascii_letter c = (ascii_upper c \<or> ascii_lower c)"

definition ascii_digit :: "nat \<Rightarrow> bool" where
  "ascii_digit c = (48 \<le> c \<and> c \<le> 57)"

text \<open>
  The tables cut down to ASCII: they agree with CPython on every code point below 128 and
  on every ASCII string, and serve to evaluate the functions on ASCII inputs.
\<close>

definition ascii_tables :: unicode_tables where
  "ascii_tables = \<lparr> decimal = ascii_digit, isdigit = ascii_digit, isalpha = ascii_letter,
     str_lower = map (\<lambda>c. if ascii_upper c then c + 32 else c) \<rparr>"

definition ascii_compatible :: "unicode_tables \<Rightarrow> bool" where
  "ascii_compatible U = (\<forall>c < 128. decimal U c = ascii_digit c \<and> isdigit U c = ascii_digit c
     \<and> isalpha U c = ascii_letter c)"

text \<open>\<open>str.strip()\<close>, \<open>str.split(sep)\<close> for a one-character separator, slices
  \<open>s[a:b]\<close> with \<open>0 \<le> a\<close>, \<open>0 \<le> b\<close>, \<open>str.replace\<close>, and \<open>str.find\<close> of a
  one-character string, which returns \<open>-1\<close> (here \<open>None\<close>) when there is none.\<close>

definition strip :: "ustring \<Rightarrow> ustring" where
  "strip s = rev (dropWhile is_space (rev (dropWhile is_space s)))"

fun split_on :: "nat \<Rightarrow> ustring \<Rightarrow> ustring list" where
  "split_on sep [] = [[]]"
| "split_on sep (c # cs) =
     (if c = sep then [] # split_on sep cs
      else (case split_on sep cs of [] \<Rightarrow> [[c]] | x # xs \<Rightarrow> (c # x) # xs))"

definition slice :: "ustring \<Rightarrow> nat \<Rightarrow> nat \<Rightarrow> ustring" where
  "slice s a b = take (b - a) (drop a s)"

function str_replace :: "ustring \<Rightarrow> ustring \<Rightarrow> ustring \<Rightarrow> ustring" where
  "str_replace old new s =
     (if old = [] then new @ concat (map (\<lambda>c. c # new) s)
      else if s = [] then []
      else if take (length old) s = old then new @ str_replace old new (drop (length old) s)
      else hd s # str_replace old new (tl s))"
  by pat_completeness auto
termination
  by (relation "measure (\<lambda>(old, new, s). length s)") auto

declare str_replace.simps [simp del]

definition str_find :: "nat \<Rightarrow> ustring \<Rightarrow> nat \<Rightarrow> nat option" where
  "str_find ch s start =
     (case dropWhile (\<lambda>c. c \<noteq> ch) (drop start s) of
        [] \<Rightarrow> None
      | _ # rest \<Rightarrow> Some (length s - Suc (length rest)))"

definition startswith :: "ustring \<Rightarrow> ustring \<Rightarrow> bool" where
  "startswith s w = (take (length w) s = w)"

definition endswith :: "ustring \<Rightarrow> ustring \<Rightarrow> bool" where
  "endswith s w = (length w \<le> length s \<and> drop (length s - length w) s = w)"

section \<open>Regular expressions\<close>

text \<open>
  The patterns of the program use literals, repeated character classes (greedy
  \<open>*\<close>, \<open>+\<close>, \<open>?\<close>, \<open>{m,n}\<close> and the lazy \<open>*?\<close>), sequence, alternation, one
  capturing group and one-character look-behind and look-ahead. A match state is the
  character before the position, the rest of the subject and the text of group 1.
  \<open>matches\<close> lists the states a pattern can end in, in the order in which the backtracking
  matcher tries them: the first one is the match that \<open>re\<close> reports.
\<close>

datatype regex =
    Eps
  | Lit ustring
  | Rep "nat \<Rightarrow> bool" nat "nat option"
  | Lazy "nat \<Rightarrow> bool"
  | Seq regex regex
  | Alt regex regex
  | Group regex
  | Behind "nat \<Rightarrow> bool"
  | Ahead "nat \<Rightarrow> bool"

type_synonym mstate = "nat option \<times> ustring \<times> ustring option"

definition prev_after :: "nat option \<Rightarrow> ustring \<Rightarrow> nat option" where
  "prev_after p w = (if w = [] then p else Some (last w))"

definition consume :: "mstate \<Rightarrow> nat \<Rightarrow> mstate" where
  "consume st j = (case st of (p, s, g) \<Rightarrow> (prev_after p (take j s), drop j s, g))"

fun matches :: "regex \<Rightarrow> mstate \<Rightarrow> mstate list" where
  "matches Eps st = [st]"
| "matches (Lit w) (p, s, g) =
     (if take (length w) s = w then [consume (p, s, g) (length w)] else [])"
| "matches (Rep P m n) (p, s, g) =
     (let k = length (takeWhile P s);
          hi = (case n of None \<Rightarrow> k | Some b \<Rightarrow> min k b)
      in map (consume (p, s, g)) (rev [m ..< Suc hi]))"
| "matches (Lazy P) (p, s, g) =
     map (consume (p, s, g)) [0 ..< Suc (length (takeWhile P s))]"
| "matches (Seq a b) st = concat (map (matches b) (matches a st))"
| "matches (Alt a b) st = matches a st @ matches b st"
| "matches (Group r) (p, s, g) =
     map (\<lambda>(p', s', g'). (p', s', Some (take (length s - length s') s))) (matches r (p, s, g))"
| "matches (Behind P) (p, s, g) =
     (if (case p of None \<Rightarrow> False | Some c \<Rightarrow> P c) then [(p, s, g)] else [])"
| "matches (Ahead P) (p, s, g) =
     (case s of [] \<Rightarrow> [] | c # _ \<Rightarrow> if P c then [(p, s, g)] else [])"

fun seq :: "regex list \<Rightarrow> regex" where
  "seq [] = Eps"
| "seq [r] = r"
| "seq (r # rs) = Seq r (seq rs)"

text \<open>The match at a position: its length and the text of group 1.\<close>

definition first_match :: "regex \<Rightarrow> nat option \<Rightarrow> ustring \<Rightarrow> (nat \<times> ustring option) option" where
  "first_match r p s =
     (case matches r (p, s, None) of
        [] \<Rightarrow> None
      | (p', s', g) # _ \<Rightarrow> Some (length s - length s', g))"

text \<open>
  A replacement template is a list of literal pieces and references to group 1
  (\<open>\1\<close>); a group that took no part in the match expands to the empty string.
\<close>

datatype titem = TLit ustring | TGroup

fun expand :: "titem list \<Rightarrow> ustring option \<Rightarrow> ustring" where
  "expand [] g = []"
| "expand (TLit w # t) g = w @ expand t g"
| "expand (TGroup # t) g = (case g of None \<Rightarrow> [] | Some x \<Rightarrow> x) @ expand t g"

text \<open>
  \<open>re.sub\<close>: scan from the left, replace each match and go on behind it; a character
  at which nothing matches is copied. Every pattern of the program consumes at least one
  character; an empty match is replaced and the character behind it copied, as CPython
  (3.7 and later) does for greedy patterns.
\<close>

function re_sub :: "regex \<Rightarrow> titem list \<Rightarrow> nat option \<Rightarrow> ustring \<Rightarrow> ustring" where
  "re_sub r t p [] = (case first_match r p [] of None \<Rightarrow> [] | Some (n, g) \<Rightarrow> expand t g)"
| "re_sub r t p (c # cs) =
     (case first_match r p (c # cs) of
        None \<Rightarrow> c # re_sub r t (Some c) cs
      | Some (n, g) \<Rightarrow>
          if n = 0 then expand t g @ c # re_sub r t (Some c) cs
          else expand t g @ re_sub r t (Some ((c # cs) ! (n - 1))) (drop n (c # cs)))"
  by pat_completeness auto
termination
  by (relation "measure (\<lambda>(r, t, p, s). length s)") auto

text \<open>
  \<open>re.split\<close> with a pattern that is one capturing group: the pieces between the
  matches, with the text of the group between them.
\<close>

function re_split_from :: "regex \<Rightarrow> nat option \<Rightarrow> ustring \<Rightarrow> ustring \<Rightarrow> ustring list" where
  "re_split_from r p acc [] =
     (case first_match r p [] of
        None \<Rightarrow> [acc]
      | Some (n, g) \<Rightarrow> acc # (case g of None \<Rightarrow> [] | Some x \<Rightarrow> [x]) @ [[]])"
| "re_split_from r p acc (c # cs) =
     (case first_match r p (c # cs) of
        None \<Rightarrow> re_split_from r (Some c) (acc @ [c]) cs
      | Some (n, g) \<Rightarrow>
          if n = 0 then acc # (case g of None \<Rightarrow> [] | Some x \<Rightarrow> [x]) @ re_split_from r (Some c) [c] cs
          else acc # (case g of None \<Rightarrow> [] | Some x \<Rightarrow> [x])
                 @ re_split_from r (Some ((c # cs) ! (n - 1))) [] (drop n (c # cs)))"
  by pat_completeness auto
termination
  by (relation "measure (\<lambda>(r, p, acc, s). length s)") auto

definition re_split :: "regex \<Rightarrow> ustring \<Rightarrow> ustring list" where
  "re_split r s = re_split_from r None [] s"

section \<open>The Markdown converter (markdown\_converter.py)\<close>

text \<open>A run is the tuple \<open>(text, is_sub, is_sup)\<close> of the source.\<close>

type_synonym run = "ustring \<times> bool \<times> bool"

subsection \<open>\<open>latex_like_to_runs\<close>\<close>

definition flush_buf :: "ustring \<Rightarrow> run list" where
  "flush_buf buf = (if buf \<noteq> [] then [(buf, False, False)] else [])"

lemma str_find_bounds:
  "str_find ch s start = Some k \<Longrightarrow> start \<le> k \<and> k < length s"
proof -
  assume a: "str_find ch s start = Some k"
  then obtain x rest where d: "dropWhile (\<lambda>c. c \<noteq> ch) (drop start s) = x # rest"
    and k: "k = length s - Suc (length rest)"
    by (auto simp: str_find_def split: list.splits)
  have "length (dropWhile (\<lambda>c. c \<noteq> ch) (drop start s)) \<le> length (drop start s)"
    by (rule length_dropWhile_le)
  with d have "Suc (length rest) \<le> length s - start" by simp
  with k show ?thesis by auto
qed

text \<open>
  The loop of \<open>latex_like_to_runs\<close>, with its variables \<open>i\<close> and \<open>buf\<close>; the list
  \<open>runs\<close> is the result. The characters \<open>_\<close>, \<open>^\<close>, \<open>{\<close>, \<open>}\<close> are 95, 94, 123, 125.
\<close>

function latex_like_to_runs_from :: "ustring \<Rightarrow> nat \<Rightarrow> ustring \<Rightarrow> run list" where
  "latex_like_to_runs_from content i buf =
     (if i < length content then
        (if content ! i = 95 \<or> content ! i = 94 then
           (if i + 1 < length content \<and> content ! (i + 1) = 123 then
              (case str_find 125 content (i + 1 + 1) of
                 None \<Rightarrow> latex_like_to_runs_from content (i + 1) (buf @ [content ! i])
               | Some closing \<Rightarrow>
                   flush_buf buf
                   @ (slice content (i + 1 + 1) closing, content ! i = 95, \<not> content ! i = 95)
                   # latex_like_to_runs_from content (closing + 1) [])
            else if i + 1 < length content then
              flush_buf buf
              @ ([content ! (i + 1)], content ! i = 95, \<not> content ! i = 95)
              # latex_like_to_runs_from content (i + 1 + 1) []
            else latex_like_to_runs_from content (i + 1) (buf @ [content ! i]))
         else latex_like_to_runs_from content (i + 1) (buf @ [content ! i]))
      else flush_buf buf)"
  by pat_completeness auto
termination
  by (relation "measure (\<lambda>(content, i, buf). length content - i)")
     (auto dest: str_find_bounds)

declare latex_like_to_runs_from.simps [simp del]

definition latex_like_to_runs :: "ustring \<Rightarrow> run list" where
  "latex_like_to_runs content = latex_like_to_runs_from content 0 []"

subsection \<open>\<open>convert_latex_to_simple\<close>\<close>

definition not_char :: "nat \<Rightarrow> nat \<Rightarrow> bool" where
  "not_char x c = (c \<noteq> x)"

definition is_char :: "nat \<Rightarrow> nat \<Rightarrow> bool" where
  "is_char x c = (c = x)"

text \<open>The patterns, in the order of the source; 92 is the backslash.\<close>

definition pat_mathrm :: regex where
  "pat_mathrm = seq [Lit (92 # ustr ''mathrm{''), Group (Rep (not_char 125) 1 None), Lit (ustr ''}'')]"

definition pat_text :: regex where
  "pat_text = seq [Lit (92 # ustr ''text{''), Group (Rep (not_char 125) 1 None), Lit (ustr ''}'')]"

definition pat_uparrow :: regex where
  "pat_uparrow = Lit (92 # ustr ''uparrow'')"

definition pat_downarrow :: regex where
  "pat_downarrow = Lit (92 # ustr ''downarrow'')"

definition pat_to :: regex where
  "pat_to = Alt (Lit (92 # ustr ''to''))
             (Alt (Lit (92 # ustr ''longrightarrow''))
                  (seq [Rep (is_char 45) 1 (Some 2), Lit (ustr ''>'')]))"

definition pat_leftrightarrow :: regex where
  "pat_leftrightarrow = Alt (Lit (92 # ustr ''leftrightarrow''))
                          (Alt (Lit (ustr ''<->'')) (Lit (ustr ''<=>'')))"

definition pat_xrightarrow :: regex where
  "pat_xrightarrow = seq [Lit (92 # ustr ''xrightarrow[''), Rep (not_char 93) 0 None,
     Lit (ustr '']{''), Rep (not_char 125) 0 None, Lit (ustr ''}'')]"

definition pat_begin_end :: regex where
  "pat_begin_end =
     Alt (seq [Lit (92 # ustr ''begin{''), Rep (not_char 125) 1 None, Lit (ustr ''}'')])
         (seq [Lit (92 # ustr ''end{''), Rep (not_char 125) 1 None, Lit (ustr ''}'')])"

definition pat_linebreak :: regex where
  "pat_linebreak = Lit [92, 92]"

definition pat_ampersand :: regex where
  "pat_ampersand = seq [Rep is_space 0 None, Lit (ustr ''&''), Rep is_space 0 None]"

definition pat_artifact :: regex where
  "pat_artifact = seq [Lit (ustr ''{''), Rep is_space 0 None, Rep (not_char 125) 0 None,
     Rep is_space 0 None, Lit (ustr ''}''), Rep is_space 0 None, Lit (ustr ''{=}'')]"

definition pat_command_arg :: regex where
  "pat_command_arg = seq [Lit [92], Rep ascii_letter 1 None, Rep (is_char 42) 0 (Some 1),
     Lit (ustr ''{''), Group (Rep (not_char 125) 0 None), Lit (ustr ''}'')]"

definition pat_command :: regex where
  "pat_command = seq [Lit [92], Rep ascii_letter 1 None, Rep (is_char 42) 0 (Some 1)]"

definition pat_blanks :: regex where
  "pat_blanks = Rep (\<lambda>c. c = 9 \<or> c = 32) 1 None"

definition pat_newline :: regex where
  "pat_newline = seq [Rep (is_char 32) 0 None, Lit [10], Rep (is_char 32) 0 None]"

text \<open>The glyphs are U+2191 (8593), U+2193 (8595), U+2192 (8594) and U+2194 (8596).\<close>

definition convert_latex_to_simple :: "ustring \<Rightarrow> ustring" where
  "convert_latex_to_simple latex_content =
     (let converted = latex_content;
          converted = re_sub pat_mathrm [TGroup] None converted;
          converted = re_sub pat_text [TGroup] None converted;
          converted = re_sub pat_uparrow [TLit [8593]] None converted;
          converted = re_sub pat_downarrow [TLit [8595]] None converted;
          converted = re_sub pat_to [TLit [8594]] None converted;
          converted = re_sub pat_leftrightarrow [TLit [8596]] None converted;
          converted = re_sub pat_xrightarrow [TLit [8594]] None converted;
          converted = re_sub pat_begin_end [] None converted;
          converted = re_sub pat_linebreak [TLit [10]] None converted;
          converted = re_sub pat_ampersand [TLit (ustr '' '')] None converted;
          converted = re_sub pat_artifact [TLit (ustr '' = '')] None converted;
          converted = re_sub pat_command_arg [TGroup] None converted;
          converted = re_sub pat_command [] None converted;
          converted = str_replace (ustr ''}'') [] (str_replace (ustr ''{'') [] converted);
          converted = re_sub pat_blanks [TLit (ustr '' '')] None converted;
          converted = re_sub pat_newline [TLit [10]] None converted;
          converted = strip converted
      in converted)"

subsection \<open>\<open>parse_content\<close>\<close>

datatype segment_type = block_formula | inline_formula | text_segment

type_synonym segment = "segment_type \<times> ustring"

definition pat_block :: regex where
  "pat_block = Group (seq [Lit (ustr ''$$''), Lazy (\<lambda>c. True), Lit (ustr ''$$'')])"

definition pat_inline :: regex where
  "pat_inline = Group (seq [Lit (ustr ''$''), Rep (not_char 36) 1 None, Lit (ustr ''$'')])"

text \<open>\<open>s[a:-b]\<close> for \<open>b > 0\<close>.\<close>

definition slice_end :: "ustring \<Rightarrow> nat \<Rightarrow> nat \<Rightarrow> ustring" where
  "slice_end s a b = drop a (take (length s - b) s)"

definition parse_inline :: "ustring \<Rightarrow> segment list" where
  "parse_inline inline =
     (if inline = [] then []
      else if startswith inline (ustr ''$'') \<and> endswith inline (ustr ''$'') then
        [(inline_formula, convert_latex_to_simple (slice_end inline 1 1))]
      else if strip inline \<noteq> [] then [(text_segment, inline)]
      else [])"

definition parse_part :: "ustring \<Rightarrow> segment list" where
  "parse_part part =
     (if part = [] then []
      else if startswith part (ustr ''$$'') \<and> endswith part (ustr ''$$'') then
        concat (map (\<lambda>line. if strip line \<noteq> [] then [(block_formula, strip line)] else [])
                  (split_on 10 (convert_latex_to_simple (strip (slice_end part 2 2)))))
      else concat (map parse_inline (re_split pat_inline part)))"

definition parse_content :: "ustring \<Rightarrow> segment list" where
  "parse_content txt = concat (map parse_part (re_split pat_block txt))"

subsection \<open>\<open>normalize_chem_spacing\<close>\<close>

definition join_rule :: "(nat \<Rightarrow> bool) \<Rightarrow> (nat \<Rightarrow> bool) \<Rightarrow> regex" where
  "join_rule P Q = seq [Behind P, Rep is_space 1 None, Ahead Q]"

definition pat_spaces :: regex where
  "pat_spaces = Rep is_space 1 None"

definition normalize_chem_spacing :: "unicode_tables \<Rightarrow> ustring \<Rightarrow> ustring" where
  "normalize_chem_spacing U txt =
     (let s = txt;
          s = re_sub (join_rule ascii_letter (decimal U)) [] None s;
          s = re_sub (join_rule (decimal U) (\<lambda>c. ascii_letter c \<or> c = 40 \<or> c = 91 \<or> c = 123)) [] None s;
          s = re_sub (join_rule ascii_lower ascii_upper) [] None s;
          s = re_sub (join_rule (\<lambda>c. c = 41 \<or> c = 93 \<or> c = 125) (decimal U)) [] None s;
          s = strip (re_sub pat_spaces [TLit (ustr '' '')] None s)
      in s)"

subsection \<open>\<open>_split_for_subscripts\<close>\<close>

text \<open>The test of both loops: a digit behind a letter or a closing bracket.\<close>

definition subscript_at :: "unicode_tables \<Rightarrow> ustring \<Rightarrow> nat \<Rightarrow> bool" where
  "subscript_at U txt i =
     (isdigit U (txt ! i) \<and> i > 0
      \<and> (isalpha U (txt ! (i - 1)) \<or> txt ! (i - 1) = 41 \<or> txt ! (i - 1) = 93 \<or> txt ! (i - 1) = 125))"

function skip_digits :: "unicode_tables \<Rightarrow> ustring \<Rightarrow> nat \<Rightarrow> nat" where
  "skip_digits U txt j =
     (if j < length txt \<and> isdigit U (txt ! j) then skip_digits U txt (j + 1) else j)"
  by pat_completeness auto
termination
  by (relation "measure (\<lambda>(U, txt, j). length txt - j)") auto

declare skip_digits.simps [simp del]

function skip_plain :: "unicode_tables \<Rightarrow> ustring \<Rightarrow> nat \<Rightarrow> nat" where
  "skip_plain U txt i =
     (if i < length txt \<and> \<not> subscript_at U txt i then skip_plain U txt (i + 1) else i)"
  by pat_completeness auto
termination
  by (relation "measure (\<lambda>(U, txt, i). length txt - i)") auto

declare skip_plain.simps [simp del]

lemma skip_digits_ge: "j \<le> skip_digits U t j"
proof (induction U t j rule: skip_digits.induct)
  case (1 U t j)
  show ?case
  proof (cases "j < length t \<and> isdigit U (t ! j)")
    case True
    with 1 have "j + 1 \<le> skip_digits U t (j + 1)" by simp
    moreover from True have "skip_digits U t j = skip_digits U t (j + 1)"
      by (subst skip_digits.simps) simp
    ultimately show ?thesis by simp
  next
    case False
    then have "skip_digits U t j = j" by (subst skip_digits.simps) auto
    then show ?thesis by simp
  qed
qed

lemma skip_digits_gt:
  "j < length t \<Longrightarrow> isdigit U (t ! j) \<Longrightarrow> j < skip_digits U t j"
proof -
  assume a: "j < length t" "isdigit U (t ! j)"
  then have "skip_digits U t j = skip_digits U t (j + 1)"
    by (subst skip_digits.simps) simp
  moreover have "j + 1 \<le> skip_digits U t (j + 1)" by (rule skip_digits_ge)
  ultimately show ?thesis by simp
qed

lemma skip_plain_ge: "i \<le> skip_plain U t i"
proof (induction U t i rule: skip_plain.induct)
  case (1 U t i)
  show ?case
  proof (cases "i < length t \<and> \<not> subscript_at U t i")
    case True
    with 1 have "i + 1 \<le> skip_plain U t (i + 1)" by simp
    moreover from True have "skip_plain U t i = skip_plain U t (i + 1)"
      by (subst skip_plain.simps) simp
    ultimately show ?thesis by simp
  next
    case False
    then have "skip_plain U t i = i" by (subst skip_plain.simps) auto
    then show ?thesis by simp
  qed
qed

function split_for_subscripts_from :: "unicode_tables \<Rightarrow> ustring \<Rightarrow> nat \<Rightarrow> run list" where
  "split_for_subscripts_from U txt i =
     (if i < length txt then
        (if subscript_at U txt i then
           (slice txt i (skip_digits U txt i), True, False)
           # split_for_subscripts_from U txt (skip_digits U txt i)
         else
           (slice txt i (skip_plain U txt (i + 1)), False, False)
           # split_for_subscripts_from U txt (skip_plain U txt (i + 1)))
      else [])"
  by pat_completeness auto
termination
proof (relation "measure (\<lambda>(U, txt, i). length txt - i)", goal_cases)
  case 1
  show ?case by simp
next
  case (2 U t i)
  then have "i < skip_digits U t i"
    by (intro skip_digits_gt) (auto simp: subscript_at_def)
  with 2 show ?case by simp
next
  case (3 U t i)
  have "i + 1 \<le> skip_plain U t (i + 1)" by (rule skip_plain_ge)
  with 3 show ?case by simp
qed

declare split_for_subscripts_from.simps [simp del]

definition split_for_subscripts :: "unicode_tables \<Rightarrow> ustring \<Rightarrow> run list" where
  "split_for_subscripts U txt = split_for_subscripts_from U txt 0"

subsection \<open>\<open>_make_runs\<close>\<close>

definition make_runs :: "unicode_tables \<Rightarrow> ustring \<Rightarrow> run list" where
  "make_runs U content =
     concat (map (\<lambda>(t, is_sub, is_sup).
                    if is_sub \<or> is_sup then [(t, is_sub, is_sup)]
                    else split_for_subscripts U t)
               (latex_like_to_runs (normalize_chem_spacing U content)))"

subsection \<open>\<open>create_word_document\<close>\<close>

text \<open>
  The document is the list of its paragraphs; a paragraph has an alignment and the runs
  added to it, each with the text and the two font flags set on it.
  \<open>current_paragraph\<close> refers to a paragraph of the document: it is its index.
\<close>

datatype alignment = Unset | CENTER

record docx_paragraph =
  alignment :: alignment
  runs :: "run list"

record assembler =
  document :: "docx_paragraph list"
  current_paragraph :: "nat option"

definition add_paragraph :: "docx_paragraph list \<Rightarrow> alignment \<Rightarrow> docx_paragraph list" where
  "add_paragraph d a = d @ [\<lparr>alignment = a, runs = []\<rparr>]"

definition add_runs :: "docx_paragraph list \<Rightarrow> nat \<Rightarrow> run list \<Rightarrow> docx_paragraph list" where
  "add_runs d k rs = d[k := (d ! k)\<lparr>runs := runs (d ! k) @ rs\<rparr>]"

text \<open>\<open>if current_paragraph is None: current_paragraph = document.add_paragraph()\<close>\<close>

definition open_paragraph :: "assembler \<Rightarrow> assembler" where
  "open_paragraph st =
     (case current_paragraph st of
        None \<Rightarrow> \<lparr>document = add_paragraph (document st) Unset,
                 current_paragraph = Some (length (document st))\<rparr>
      | Some k \<Rightarrow> st)"

definition add_to_current :: "assembler \<Rightarrow> run list \<Rightarrow> assembler" where
  "add_to_current st rs =
     (case current_paragraph st of
        None \<Rightarrow> st
      | Some k \<Rightarrow> st\<lparr>document := add_runs (document st) k rs\<rparr>)"

text \<open>One round of the loop over the lines of a text segment; \<open>n\<close> is \<open>len(lines)\<close>.\<close>

definition text_line :: "unicode_tables \<Rightarrow> nat \<Rightarrow> assembler \<Rightarrow> nat \<times> ustring \<Rightarrow> assembler" where
  "text_line U n st il =
     (case il of (index, raw) \<Rightarrow>
        (let line = strip raw;
             st = (if line \<noteq> [] then add_to_current (open_paragraph st) (make_runs U line)
                   else st)
         in if index < n - 1 \<and> line \<noteq> [] then st\<lparr>current_paragraph := None\<rparr> else st))"

definition text_lines :: "unicode_tables \<Rightarrow> assembler \<Rightarrow> ustring list \<Rightarrow> assembler" where
  "text_lines U st lines = foldl (text_line U (length lines)) st (enumerate 0 lines)"

definition add_segment :: "unicode_tables \<Rightarrow> assembler \<Rightarrow> segment \<Rightarrow> assembler" where
  "add_segment U st seg =
     (case seg of (segment_type, content) \<Rightarrow>
        if segment_type = block_formula then
          \<lparr>document = add_runs (add_paragraph (document st) CENTER) (length (document st))
                         (make_runs U content),
           current_paragraph = None\<rparr>
        else if segment_type = inline_formula then
          add_to_current (open_paragraph st) (make_runs U content)
        else text_lines U st (split_on 10 content))"

definition create_word_document :: "unicode_tables \<Rightarrow> ustring \<Rightarrow> docx_paragraph list" where
  "create_word_document U markdown_text =
     document (foldl (add_segment U) \<lparr>document = [], current_paragraph = None\<rparr>
                 (parse_content markdown_text))"

section \<open>The baseline pipeline (pipeline.py)\<close>

text \<open>The exceptions that the modelled code raises or receives, and \<open>str(e)\<close>.\<close>

datatype exn =
    SDKError "int option" ustring
  | ChemistryOCRError ustring
  | IndexError
  | ValueError
  | OtherException ustring

fun exn_str :: "exn \<Rightarrow> ustring" where
  "exn_str (SDKError status msg) = msg"
| "exn_str (ChemistryOCRError msg) = msg"
| "exn_str IndexError = ustr ''string index out of range''"
| "exn_str ValueError = ustr ''sleep length must be non-negative''"
| "exn_str (OtherException msg) = msg"

subsection \<open>\<open>_BaselineDocxWriter\<close>\<close>

text \<open>
  \<open>_find_matching_brace\<close>: the loop over \<open>range(start, len(s))\<close> with its counter
  \<open>depth\<close>; \<open>None\<close> is the result \<open>-1\<close>.
\<close>

function find_matching_brace_from :: "ustring \<Rightarrow> nat \<Rightarrow> int \<Rightarrow> nat option" where
  "find_matching_brace_from s i depth =
     (if i < length s then
        (if s ! i = 123 then find_matching_brace_from s (i + 1) (depth + 1)
         else if s ! i = 125 then
           (if depth - 1 = 0 then Some i else find_matching_brace_from s (i + 1) (depth - 1))
         else find_matching_brace_from s (i + 1) depth)
      else None)"
  by pat_completeness auto
termination
  by (relation "measure (\<lambda>(s, i, depth). length s - i)") auto

declare find_matching_brace_from.simps [simp del]

definition find_matching_brace :: "ustring \<Rightarrow> nat \<Rightarrow> nat option" where
  "find_matching_brace s start = find_matching_brace_from s start 0"

lemma find_matching_brace_from_ge:
  "find_matching_brace_from s i depth = Some j \<Longrightarrow> i \<le> j"
proof (induction s i depth rule: find_matching_brace_from.induct)
  case (1 s i depth)
  from "1.prems" have lt: "i < length s"
    by (subst (asm) find_matching_brace_from.simps) (simp split: if_splits)
  show ?case
  proof (cases "s ! i = 123")
    case True
    with lt "1.prems" have "find_matching_brace_from s (i + 1) (depth + 1) = Some j"
      by (subst (asm) find_matching_brace_from.simps) simp
    with "1.IH"(1) lt True show ?thesis by fastforce
  next
    case False
    note nb = this
    show ?thesis
    proof (cases "s ! i = 125")
      case True
      show ?thesis
      proof (cases "depth - 1 = 0")
        case True
        with lt nb \<open>s ! i = 125\<close> "1.prems" have "j = i"
          by (subst (asm) find_matching_brace_from.simps) simp
        then show ?thesis by simp
      next
        case False
        with lt nb \<open>s ! i = 125\<close> "1.prems"
        have "find_matching_brace_from s (i + 1) (depth - 1) = Some j"
          by (subst (asm) find_matching_brace_from.simps) simp
        with "1.IH"(2) lt nb \<open>s ! i = 125\<close> False show ?thesis by fastforce
      qed
    next
      case False
      with lt nb "1.prems" have "find_matching_brace_from s (i + 1) depth = Some j"
        by (subst (asm) find_matching_brace_from.simps) simp
      with "1.IH"(3) lt nb False show ?thesis by fastforce
    qed
  qed
qed

text \<open>\<open>_add_run\<close> adds nothing for an empty text.\<close>

definition add_run :: "run list \<Rightarrow> ustring \<Rightarrow> bool \<Rightarrow> bool \<Rightarrow> run list" where
  "add_run par txt superscript subscript =
     (if txt = [] then par else par @ [(txt, subscript, superscript)])"

definition flush :: "run list \<Rightarrow> ustring \<Rightarrow> run list" where
  "flush par normal = (if normal \<noteq> [] then add_run par normal False False else par)"

text \<open>
  The two patterns of \<open>_add_parsed_line\<close>; the signs are \<open>+\<close>, \<open>-\<close>, U+00B1 and
  U+2213.
\<close>

definition pat_super :: "unicode_tables \<Rightarrow> regex" where
  "pat_super U = seq [Rep (\<lambda>c. c = 43 \<or> c = 45 \<or> c = 177 \<or> c = 8723) 0 (Some 1),
                      Rep (decimal U) 1 None]"

definition pat_sub :: "unicode_tables \<Rightarrow> regex" where
  "pat_sub U = Rep (decimal U) 1 None"

text \<open>
  The loop of \<open>_add_parsed_line\<close> with its variables \<open>i\<close> and \<open>normal\<close>; the result is
  the paragraph with the runs added so far and the exception raised, if any:
  \<open>line[i]\<close> raises \<open>IndexError\<close> when \<open>^\<close> or \<open>_\<close> is the last character.
\<close>

function add_parsed_line_from ::
  "unicode_tables \<Rightarrow> run list \<Rightarrow> ustring \<Rightarrow> nat \<Rightarrow> ustring \<Rightarrow> run list \<times> exn option" where
  "add_parsed_line_from U par line i normal =
     (if i < length line then
        (if line ! i = 94 \<or> line ! i = 95 then
           (if i + 1 < length line \<and> line ! (i + 1) = 123 then
              (case find_matching_brace line (i + 1) of
                 None \<Rightarrow> add_parsed_line_from U par line (i + 1) (normal @ [line ! i])
               | Some j \<Rightarrow>
                   add_parsed_line_from U
                     (add_run (flush par normal) (slice line (i + 1 + 1) j)
                        (line ! i = 94) (\<not> line ! i = 94))
                     line (j + 1) [])
            else
              (case first_match (if line ! i = 94 then pat_super U else pat_sub U) None
                      (drop (i + 1) line) of
                 Some (n, g) \<Rightarrow>
                   add_parsed_line_from U
                     (add_run (flush par normal) (take n (drop (i + 1) line))
                        (line ! i = 94) (\<not> line ! i = 94))
                     line (i + 1 + n) []
               | None \<Rightarrow>
                   if i + 1 < length line then
                     add_parsed_line_from U
                       (add_run (flush par normal) [line ! (i + 1)]
                          (line ! i = 94) (\<not> line ! i = 94))
                       line (i + 1 + 1) []
                   else (par, Some IndexError)))
         else add_parsed_line_from U par line (i + 1) (normal @ [line ! i]))
      else (flush par normal, None))"
  by pat_completeness auto
termination
  by (relation "measure (\<lambda>(U, par, line, i, normal). length line - i)")
     (auto simp: find_matching_brace_def dest: find_matching_brace_from_ge)

declare add_parsed_line_from.simps [simp del]

definition add_parsed_line :: "unicode_tables \<Rightarrow> run list \<Rightarrow> ustring \<Rightarrow> run list \<times> exn option" where
  "add_parsed_line U par line = add_parsed_line_from U par line 0 []"

text \<open>\<open>create_docx_bytes\<close>: one paragraph for each line of the text.\<close>

fun add_lines :: "unicode_tables \<Rightarrow> run list list \<Rightarrow> ustring list \<Rightarrow> exn + run list list" where
  "add_lines U doc [] = Inr doc"
| "add_lines U doc (raw_line # rest) =
     (if raw_line \<noteq> [] then
        (case add_parsed_line U [] raw_line of
           (par, Some e) \<Rightarrow> Inl e
         | (par, None) \<Rightarrow> add_lines U (doc @ [par]) rest)
      else add_lines U (doc @ [[]]) rest)"

definition create_docx_bytes :: "unicode_tables \<Rightarrow> ustring \<Rightarrow> exn + run list list" where
  "create_docx_bytes U txt = add_lines U [] (split_on 10 txt)"

subsection \<open>\<open>ChemistryPipeline\<close>\<close>

text \<open>
  The chat service is outside the program. A response is what the code reads of it: the
  content of the message of each choice (\<open>None\<close> for a choice without message), the
  attribute \<open>output_text\<close> and \<open>str(response)\<close>; a field that may be absent is an
  option. A chunk of a content list is its attribute \<open>text\<close>.
\<close>

datatype msg_content = ContentStr ustring | ContentList "ustring option list" | ContentOther

record response =
  choices :: "msg_content option list option"
  output_text :: "ustring option option"
  repr :: ustring

datatype request =
    VisionRequest ustring "nat list" ustring
  | RefineRequest ustring ustring

text \<open>
  The environment of a pipeline: the Unicode tables, the service (which may answer the
  \<open>n\<close>-th call as it likes) and whether \<open>SDKError\<close> could be imported (otherwise the name
  stands for \<open>Exception\<close>). The world records the calls made and the sleeps slept.
  Durations are real numbers: rounding and the range of \<open>float\<close> and of the clock are
  not modelled.
\<close>

record env =
  tables :: unicode_tables
  chat_complete :: "nat \<Rightarrow> request \<Rightarrow> exn + response"
  sdk_error_imported :: bool

record world =
  calls :: "request list"
  sleeps :: "real list"

fun str_join :: "ustring \<Rightarrow> ustring list \<Rightarrow> ustring" where
  "str_join sep [] = []"
| "str_join sep [x] = x"
| "str_join sep (x # xs) = x @ sep @ str_join sep xs"

fun str_contains :: "ustring \<Rightarrow> ustring \<Rightarrow> bool" where
  "str_contains sub [] = (sub = [])"
| "str_contains sub (c # cs) = (take (length sub) (c # cs) = sub \<or> str_contains sub cs)"

text \<open>The text of the first choice, as both extraction blocks compute it.\<close>

definition truthy_chunks :: "ustring option list \<Rightarrow> ustring list" where
  "truthy_chunks content =
     concat (map (\<lambda>c. case c of None \<Rightarrow> [] | Some t \<Rightarrow> if t \<noteq> [] then [t] else []) content)"

definition choice_text :: "response \<Rightarrow> ustring option" where
  "choice_text resp =
     (case choices resp of
        None \<Rightarrow> None
      | Some [] \<Rightarrow> None
      | Some (None # _) \<Rightarrow> None
      | Some (Some (ContentStr t) # _) \<Rightarrow> Some t
      | Some (Some (ContentList content) # _) \<Rightarrow>
          (if truthy_chunks content \<noteq> [] then Some (str_join [10] (truthy_chunks content))
           else None)
      | Some (Some ContentOther # _) \<Rightarrow> None)"

definition vit_response_text :: "response \<Rightarrow> ustring" where
  "vit_response_text resp =
     (let t = choice_text resp;
          t = (if t = None then (case output_text resp of None \<Rightarrow> t | Some ot \<Rightarrow> ot) else t)
      in case t of None \<Rightarrow> repr resp | Some x \<Rightarrow> if x = [] then repr resp else x)"

definition refine_response_text :: "response \<Rightarrow> ustring" where
  "refine_response_text resp =
     (let out = choice_text resp;
          out = (if out = None \<or> out = Some []
                 then (case output_text resp of None \<Rightarrow> out | Some ot \<Rightarrow> ot) else out)
      in case out of None \<Rightarrow> repr resp | Some x \<Rightarrow> if x = [] then repr resp else x)"

definition vit_extract_text ::
  "env \<Rightarrow> world \<Rightarrow> nat list \<Rightarrow> ustring \<Rightarrow> ustring \<Rightarrow> world \<times> (exn + ustring)" where
  "vit_extract_text E w data mime_type model =
     (if data = [] then (w, Inl (ChemistryOCRError (ustr ''Empty image payload'')))
      else
        (case chat_complete E (length (calls w)) (VisionRequest model data mime_type) of
           Inl exc \<Rightarrow>
             (w\<lparr>calls := calls w @ [VisionRequest model data mime_type]\<rparr>,
              Inl (ChemistryOCRError (ustr ''Vision request failed: '' @ exn_str exc)))
         | Inr vit_response \<Rightarrow>
             (w\<lparr>calls := calls w @ [VisionRequest model data mime_type]\<rparr>,
              Inr (vit_response_text vit_response))))"

text \<open>
  \<open>_refine_text_with_retry\<close>. An exception is handled by the first clause when it is an
  \<open>SDKError\<close>; the test of that clause is \<open>is_rate_limit\<close>. \<open>time.sleep\<close> raises
  \<open>ValueError\<close> for a negative duration.
\<close>

definition caught_as_sdk_error :: "env \<Rightarrow> exn \<Rightarrow> bool" where
  "caught_as_sdk_error E e =
     (\<not> sdk_error_imported E \<or> (case e of SDKError status msg \<Rightarrow> True | _ \<Rightarrow> False))"

definition status_code :: "exn \<Rightarrow> int option" where
  "status_code e = (case e of SDKError status msg \<Rightarrow> status | _ \<Rightarrow> None)"

definition is_rate_limit :: "env \<Rightarrow> exn \<Rightarrow> bool" where
  "is_rate_limit E e =
     (status_code e = Some 429 \<or> str_contains (ustr ''Status 429'') (exn_str e)
      \<or> str_contains (ustr ''capacity'') (str_lower (tables E) (exn_str e)))"

fun refine_loop ::
  "env \<Rightarrow> ustring \<Rightarrow> ustring \<Rightarrow> real \<Rightarrow> nat \<Rightarrow> nat \<Rightarrow> exn option \<Rightarrow> world
     \<Rightarrow> world \<times> (exn + ustring)" where
  "refine_loop E raw_text model_name base_sleep attempt 0 last_err w =
     (w, case last_err of Some e \<Rightarrow> Inl e | None \<Rightarrow> Inr raw_text)"
| "refine_loop E raw_text model_name base_sleep attempt (Suc remaining) last_err w =
     (case chat_complete E (length (calls w)) (RefineRequest model_name raw_text) of
        Inr resp \<Rightarrow>
          (w\<lparr>calls := calls w @ [RefineRequest model_name raw_text]\<rparr>,
           Inr (refine_response_text resp))
      | Inl e \<Rightarrow>
          if caught_as_sdk_error E e then
            (if is_rate_limit E e then
               (if base_sleep * 2 ^ attempt < 0 then
                  (w\<lparr>calls := calls w @ [RefineRequest model_name raw_text]\<rparr>, Inl ValueError)
                else
                  refine_loop E raw_text model_name base_sleep (attempt + 1) remaining (Some e)
                    (w\<lparr>calls := calls w @ [RefineRequest model_name raw_text],
                       sleeps := sleeps w @ [base_sleep * 2 ^ attempt]\<rparr>))
             else (w\<lparr>calls := calls w @ [RefineRequest model_name raw_text]\<rparr>, Inl e))
          else (w\<lparr>calls := calls w @ [RefineRequest model_name raw_text]\<rparr>, Inl e))"

definition refine_text_with_retry ::
  "env \<Rightarrow> world \<Rightarrow> ustring \<Rightarrow> ustring \<Rightarrow> int \<Rightarrow> real \<Rightarrow> world \<times> (exn + ustring)" where
  "refine_text_with_retry E w raw_text model_name max_retries base_sleep =
     refine_loop E raw_text model_name base_sleep 0 (nat max_retries) None w"

definition final_cleanup :: "ustring \<Rightarrow> ustring" where
  "final_cleanup txt = str_replace (ustr ''$'') [] (str_replace [92, 110] [10] txt)"

text \<open>
  \<open>process_image_bytes_vit\<close>: the first \<open>try\<close> statement is \<open>extract_draft\<close>, the second
  one keeps the draft when the refinement raises.
\<close>

definition extract_draft ::
  "env \<Rightarrow> world \<Rightarrow> nat list \<Rightarrow> ustring \<Rightarrow> ustring \<Rightarrow> world \<times> (exn + ustring)" where
  "extract_draft E w data mime_type model =
     (case vit_extract_text E w data mime_type model of
        (w1, Inr draft_text) \<Rightarrow> (w1, Inr draft_text)
      | (w1, Inl (ChemistryOCRError msg)) \<Rightarrow>
          if model \<noteq> ustr ''pixtral-12b''
          then vit_extract_text E w1 data mime_type (ustr ''pixtral-12b'')
          else (w1, Inl (ChemistryOCRError msg))
      | (w1, Inl e) \<Rightarrow> (w1, Inl e))"

definition process_image_bytes_vit ::
  "env \<Rightarrow> world \<Rightarrow> nat list \<Rightarrow> ustring \<Rightarrow> ustring \<Rightarrow> world \<times> (exn + run list list)" where
  "process_image_bytes_vit E w data mime_type model =
     (case extract_draft E w data mime_type model of
        (w1, Inl e) \<Rightarrow> (w1, Inl e)
      | (w1, Inr draft_text) \<Rightarrow>
          (case refine_text_with_retry E w1 draft_text (ustr ''mistral-small-latest'') 3 1 of
             (w2, Inr refined_text) \<Rightarrow>
               (w2, create_docx_bytes (tables E) (final_cleanup refined_text))
           | (w2, Inl e) \<Rightarrow>
               (w2, create_docx_bytes (tables E) (final_cleanup draft_text))))"

section \<open>Properties of the matcher\<close>

lemma prev_after_append: "prev_after (prev_after p a) b = prev_after p (a @ b)"
  by (simp add: prev_after_def)

lemma consume_consume:
  "consume (consume (p, s, g) j) k = consume (p, s, g) (j + k)"
  by (simp add: consume_def prev_after_append take_add add.commute)

lemma consume_0: "consume (p, s, g) 0 = (p, s, g)"
  by (simp add: consume_def prev_after_def)

lemma take_eq_imp_le: "take (length w) s = w \<Longrightarrow> length w \<le> length s"
  by (metis length_take min.cobounded1)

lemma matches_Rep_iff:
  "st' \<in> set (matches (Rep P m n) (p, s, g)) \<longleftrightarrow>
     (\<exists>j. m \<le> j \<and> j \<le> length (takeWhile P s) \<and> (case n of None \<Rightarrow> True | Some b \<Rightarrow> j \<le> b)
          \<and> st' = consume (p, s, g) j)"
proof (cases n)
  case None
  then have "set (matches (Rep P m n) (p, s, g))
               = consume (p, s, g) ` {m ..< Suc (length (takeWhile P s))}"
    by (simp add: Let_def del: upt_Suc)
  with None show ?thesis by (auto simp: less_Suc_eq_le)
next
  case (Some b)
  then have "set (matches (Rep P m n) (p, s, g))
               = consume (p, s, g) ` {m ..< Suc (min (length (takeWhile P s)) b)}"
    by (simp add: Let_def del: upt_Suc)
  with Some show ?thesis by (auto simp: less_Suc_eq_le)
qed

lemma matches_Lazy_iff:
  "st' \<in> set (matches (Lazy P) (p, s, g)) \<longleftrightarrow>
     (\<exists>j. j \<le> length (takeWhile P s) \<and> st' = consume (p, s, g) j)"
proof -
  have "set (matches (Lazy P) (p, s, g))
          = consume (p, s, g) ` {0 ..< Suc (length (takeWhile P s))}"
    by (simp del: upt_Suc)
  then show ?thesis by (auto simp: less_Suc_eq_le)
qed

text \<open>Every end state of a pattern is the start state moved over some characters.\<close>

lemma matches_consume:
  "(p', s', g') \<in> set (matches r (p, s, g)) \<Longrightarrow>
     \<exists>j. j \<le> length s \<and> p' = prev_after p (take j s) \<and> s' = drop j s"
proof (induction r arbitrary: p s g p' s' g')
  case Eps
  then show ?case by (auto simp: prev_after_def intro: exI[of _ 0])
next
  case (Lit w)
  then have "take (length w) s = w" and "(p', s', g') = consume (p, s, g) (length w)"
    by (auto split: if_splits)
  moreover from this have "length w \<le> length s"
    by (simp add: take_eq_imp_le)
  ultimately show ?case by (intro exI[of _ "length w"]) (simp add: consume_def)
next
  case (Rep P m n)
  then obtain j where j: "(p', s', g') = consume (p, s, g) j" "j \<le> length (takeWhile P s)"
    unfolding matches_Rep_iff by blast
  moreover have "length (takeWhile P s) \<le> length s" by (rule length_takeWhile_le)
  ultimately show ?case by (intro exI[of _ j]) (simp add: consume_def)
next
  case (Lazy P)
  then obtain j where j: "(p', s', g') = consume (p, s, g) j" "j \<le> length (takeWhile P s)"
    unfolding matches_Lazy_iff by blast
  moreover have "length (takeWhile P s) \<le> length s" by (rule length_takeWhile_le)
  ultimately show ?case by (intro exI[of _ j]) (simp add: consume_def)
next
  case (Seq a b)
  then obtain p1 s1 g1 where a: "(p1, s1, g1) \<in> set (matches a (p, s, g))"
    and b: "(p', s', g') \<in> set (matches b (p1, s1, g1))"
    by auto
  from Seq.IH(1)[OF a] obtain j where
    j: "j \<le> length s" "p1 = prev_after p (take j s)" "s1 = drop j s" by blast
  from Seq.IH(2)[OF b] obtain k where
    k: "k \<le> length s1" "p' = prev_after p1 (take k s1)" "s' = drop k s1" by blast
  from j k have "j + k \<le> length s" by simp
  moreover from j k have "p' = prev_after p (take (j + k) s)"
    by (simp add: prev_after_append take_add)
  moreover from j k have "s' = drop (j + k) s" by (simp add: add.commute)
  ultimately show ?case by blast
next
  case (Alt a b)
  from Alt.prems have "(p', s', g') \<in> set (matches a (p, s, g)) \<or> (p', s', g') \<in> set (matches b (p, s, g))"
    by simp
  then show ?case using Alt.IH by blast
next
  case (Group r)
  then obtain g1 where "(p', s', g1) \<in> set (matches r (p, s, g))"
    by auto
  from Group.IH[OF this] show ?case .
next
  case (Behind P)
  then show ?case by (auto simp: prev_after_def split: if_splits intro: exI[of _ 0])
next
  case (Ahead P)
  then show ?case by (auto simp: prev_after_def split: list.splits if_splits intro: exI[of _ 0])
qed

text \<open>A pattern needs a class of characters when every match of it holds one of them.\<close>

fun needs :: "(nat \<Rightarrow> bool) \<Rightarrow> regex \<Rightarrow> bool" where
  "needs S Eps = False"
| "needs S (Lit w) = list_ex S w"
| "needs S (Rep P m n) = (0 < m \<and> (\<forall>c. P c \<longrightarrow> S c))"
| "needs S (Lazy P) = False"
| "needs S (Seq a b) = (needs S a \<or> needs S b)"
| "needs S (Alt a b) = (needs S a \<and> needs S b)"
| "needs S (Group r) = needs S r"
| "needs S (Behind P) = False"
| "needs S (Ahead P) = False"

lemma needs_matches:
  "needs S r \<Longrightarrow> (p', s', g') \<in> set (matches r (p, s, g)) \<Longrightarrow>
     list_ex S (take (length s - length s') s)"
proof (induction r arbitrary: p s g p' s' g')
  case (Lit w)
  then have w: "take (length w) s = w" "s' = drop (length w) s" "list_ex S w"
    by (auto simp: consume_def split: if_splits)
  then have "length w \<le> length s" by (simp add: take_eq_imp_le)
  then have "length s - length s' = length w" using w by simp
  with w show ?case by simp
next
  case (Rep P m n)
  then obtain j where j: "m \<le> j" "j \<le> length (takeWhile P s)" "s' = drop j s"
    unfolding matches_Rep_iff by (auto simp: consume_def)
  have le: "length (takeWhile P s) \<le> length s" by (rule length_takeWhile_le)
  from j Rep.prems(1) have "0 < j" by simp
  with j le have "s ! 0 \<in> set (take j s)"
    by (metis in_set_conv_nth length_take min.absorb2 nth_take order_trans)
  moreover from j \<open>0 < j\<close> have "P (s ! 0)"
    by (metis (no_types, lifting) Suc_le_eq nth_length_takeWhile not_le_imp_less nth_mem set_takeWhileD takeWhile_nth less_le_trans)
  ultimately show ?case using Rep.prems(1) j le by (auto simp: list_ex_iff)
next
  case (Seq a b)
  from Seq.prems(2) obtain p1 s1 g1 where a: "(p1, s1, g1) \<in> set (matches a (p, s, g))"
    and b: "(p', s', g') \<in> set (matches b (p1, s1, g1))" by auto
  from matches_consume[OF a] obtain j where j: "j \<le> length s" "s1 = drop j s"
    by blast
  from matches_consume[OF b] obtain k where k: "k \<le> length s1" "s' = drop k s1"
    by blast
  from j k have len: "length s - length s' = j + k" "length s - length s1 = j" "length s1 - length s' = k"
    by auto
  have tk: "take (j + k) s = take j s @ take k (drop j s)" by (simp add: take_add)
  from Seq.prems(1) have "needs S a \<or> needs S b" by simp
  then show ?case
  proof
    assume "needs S a"
    from Seq.IH(1)[OF this a] len tk show ?thesis by (auto simp: list_ex_iff)
  next
    assume "needs S b"
    from Seq.IH(2)[OF this b] len tk j show ?thesis by (auto simp: list_ex_iff)
  qed
next
  case (Alt a b)
  then show ?case by auto
next
  case (Group r)
  then show ?case by auto
qed simp_all

lemma needs_first_match:
  "needs S r \<Longrightarrow> \<not> list_ex S s \<Longrightarrow> first_match r p s = None"
proof -
  assume n: "needs S r" and s: "\<not> list_ex S s"
  have "matches r (p, s, None) = []"
  proof (rule ccontr)
    assume "matches r (p, s, None) \<noteq> []"
    then obtain p' s' g' where "(p', s', g') \<in> set (matches r (p, s, None))"
      by (metis list.set_intros(1) neq_Nil_conv prod_cases3)
    from needs_matches[OF n this] have "list_ex S (take (length s - length s') s)" .
    then have "list_ex S s" by (auto simp: list_ex_iff dest: in_set_takeD)
    with s show False by simp
  qed
  then show ?thesis by (simp add: first_match_def)
qed

lemma re_sub_no_match:
  "needs S r \<Longrightarrow> \<not> list_ex S s \<Longrightarrow> re_sub r t p s = s"
proof (induction s arbitrary: p)
  case Nil
  then show ?case by (simp add: needs_first_match)
next
  case (Cons c cs)
  from Cons.prems have "first_match r p (c # cs) = None" by (rule needs_first_match)
  moreover from Cons.prems have "\<not> list_ex S cs" by simp
  ultimately show ?case using Cons.IH Cons.prems(1) by simp
qed

lemma re_split_from_no_match:
  "needs S r \<Longrightarrow> \<not> list_ex S s \<Longrightarrow> re_split_from r p acc s = [acc @ s]"
proof (induction s arbitrary: p acc)
  case Nil
  then show ?case by (simp add: needs_first_match)
next
  case (Cons c cs)
  from Cons.prems have "first_match r p (c # cs) = None" by (rule needs_first_match)
  moreover from Cons.prems have "\<not> list_ex S cs" by simp
  ultimately show ?case using Cons.IH Cons.prems(1) by simp
qed

section \<open>Exclusive flags\<close>

definition exclusive :: "run \<Rightarrow> bool" where
  "exclusive r = (case r of (t, is_sub, is_sup) \<Rightarrow> \<not> (is_sub \<and> is_sup))"

lemma exclusive_simps:
  "exclusive (t, b, \<not> b)" "exclusive (t, \<not> b, b)" "exclusive (t, False, c)" "exclusive (t, c, False)"
  by (simp_all add: exclusive_def)

lemma flush_buf_exclusive: "list_all exclusive (flush_buf buf)"
  by (simp add: flush_buf_def exclusive_simps)

lemma latex_like_to_runs_from_exclusive:
  "list_all exclusive (latex_like_to_runs_from content i buf)"
proof (induction content i buf rule: latex_like_to_runs_from.induct)
  case (1 content i buf)
  show ?case
    apply (subst latex_like_to_runs_from.simps)
    using 1
    apply (auto simp: flush_buf_exclusive exclusive_simps split: option.splits)
    done
qed

lemma split_for_subscripts_from_exclusive:
  "list_all exclusive (split_for_subscripts_from U t i)"
proof (induction U t i rule: split_for_subscripts_from.induct)
  case (1 U t i)
  show ?case
    apply (subst split_for_subscripts_from.simps)
    using 1
    apply (auto simp: exclusive_simps)
    done
qed

lemma make_runs_exclusive: "list_all exclusive (make_runs U content)"
proof -
  have "list_all exclusive (concat (map (\<lambda>(t, is_sub, is_sup).
                    if is_sub \<or> is_sup then [(t, is_sub, is_sup)]
                    else split_for_subscripts U t) rs))" if "list_all exclusive rs" for rs
    using that
    by (induction rs) (auto simp: split_for_subscripts_def split_for_subscripts_from_exclusive)
  then show ?thesis
    by (simp add: make_runs_def latex_like_to_runs_def latex_like_to_runs_from_exclusive)
qed

lemma add_run_exclusive:
  "list_all exclusive par \<Longrightarrow> list_all exclusive (add_run par t b (\<not> b))"
  by (simp add: add_run_def exclusive_simps)

lemma flush_exclusive:
  "list_all exclusive par \<Longrightarrow> list_all exclusive (flush par normal)"
  by (simp add: flush_def add_run_def exclusive_simps)

lemma add_parsed_line_from_exclusive:
  "list_all exclusive par \<Longrightarrow> list_all exclusive (fst (add_parsed_line_from U par line i normal))"
proof (induction U par line i normal rule: add_parsed_line_from.induct)
  case (1 U par line i normal)
  show ?case
    apply (subst add_parsed_line_from.simps)
    using 1
    apply (auto simp: flush_exclusive add_run_exclusive split: option.splits)
    done
qed

text \<open>
  C2. No run of a tokenizer has both flags set: neither the explicit scan of the Markdown
  converter (\<open>latex_like_to_runs\<close>), nor the inference on bare digits
  (\<open>_split_for_subscripts\<close>), nor their combination (\<open>_make_runs\<close>), nor the scan of
  the baseline writer (\<open>_add_parsed_line\<close>, whose runs are those added to the new
  paragraph, also when the scan ends in an exception).
\<close>

theorem run_flags_exclusive:
  "list_all exclusive (latex_like_to_runs content)
   \<and> list_all exclusive (split_for_subscripts U content)
   \<and> list_all exclusive (make_runs U content)
   \<and> list_all exclusive (fst (add_parsed_line U [] content))"
  by (simp add: latex_like_to_runs_def latex_like_to_runs_from_exclusive
      split_for_subscripts_def split_for_subscripts_from_exclusive make_runs_exclusive
      add_parsed_line_def add_parsed_line_from_exclusive)

theorem run_flags_exclusive_witness:
  "list_all exclusive (latex_like_to_runs (ustr ''H_2O^{2+}''))
   \<and> list_all exclusive (split_for_subscripts ascii_tables (ustr ''H_2O^{2+}''))
   \<and> list_all exclusive (make_runs ascii_tables (ustr ''H_2O^{2+}''))
   \<and> list_all exclusive (fst (add_parsed_line ascii_tables [] (ustr ''H_2O^{2+}'')))
   \<and> make_runs ascii_tables (ustr ''H_2O^{2+}'')
       = [(ustr ''H'', False, False), (ustr ''2'', True, False), (ustr ''O'', False, False),
          (ustr ''2+'', False, True)]
   \<and> add_parsed_line ascii_tables [] (ustr ''H_2O^{2+}'')
       = ([(ustr ''H'', False, False), (ustr ''2'', True, False), (ustr ''O'', False, False),
           (ustr ''2+'', False, True)], None)"
proof -
  have "make_runs ascii_tables (ustr ''H_2O^{2+}'')
       = [(ustr ''H'', False, False), (ustr ''2'', True, False), (ustr ''O'', False, False),
          (ustr ''2+'', False, True)]"
    by code_simp
  moreover have "add_parsed_line ascii_tables [] (ustr ''H_2O^{2+}'')
       = ([(ustr ''H'', False, False), (ustr ''2'', True, False), (ustr ''O'', False, False),
           (ustr ''2+'', False, True)], None)"
    by code_simp
  ultimately show ?thesis
    using run_flags_exclusive [of "ustr ''H_2O^{2+}''" ascii_tables] by simp
qed

section \<open>Explicit markup before inference\<close>

lemma strip_no_space: "\<not> list_ex is_space s \<Longrightarrow> strip s = s"
proof -
  assume a: "\<not> list_ex is_space s"
  then have "dropWhile is_space s = s"
    by (cases s) (auto simp: list_ex_iff)
  moreover from a have "dropWhile is_space (rev s) = rev s"
    by (cases "rev s") (auto simp: list_ex_iff dest: arg_cong[where f = set])
  ultimately show ?thesis by (simp add: strip_def)
qed

lemma needs_join_rule: "needs is_space (join_rule P Q)"
  by (simp add: join_rule_def)

lemma needs_pat_spaces: "needs is_space pat_spaces"
  by (simp add: pat_spaces_def)

lemma normalize_no_space:
  "\<not> list_ex is_space s \<Longrightarrow> normalize_chem_spacing U s = s"
  by (simp add: normalize_chem_spacing_def Let_def re_sub_no_match[where S = is_space]
      needs_join_rule needs_pat_spaces strip_no_space)

definition superscript_run :: "run \<Rightarrow> bool" where
  "superscript_run r = (case r of (t, flag_sub, flag_sup) \<Rightarrow> flag_sup)"

definition styled_run :: "run \<Rightarrow> bool" where
  "styled_run r = (case r of (t, flag_sub, flag_sup) \<Rightarrow> flag_sub \<or> flag_sup)"

lemma superscript_run_simp: "superscript_run (t, b, c) = c"
  by (simp add: superscript_run_def)

lemma styled_run_simp: "styled_run (t, b, c) = (b \<or> c)"
  by (simp add: styled_run_def)

lemma split_for_subscripts_from_no_sup:
  "filter superscript_run (split_for_subscripts_from U t i) = []"
proof (induction U t i rule: split_for_subscripts_from.induct)
  case (1 U t i)
  show ?case
    apply (subst split_for_subscripts_from.simps)
    using 1
    apply (auto simp: superscript_run_simp)
    done
qed

definition expand_run :: "unicode_tables \<Rightarrow> run \<Rightarrow> run list" where
  "expand_run U r = (case r of (t, is_sub, is_sup) \<Rightarrow>
     if is_sub \<or> is_sup then [(t, is_sub, is_sup)] else split_for_subscripts U t)"

lemma make_runs_expand:
  "make_runs U content
     = concat (map (expand_run U) (latex_like_to_runs (normalize_chem_spacing U content)))"
proof -
  have "expand_run U = (\<lambda>(t, is_sub, is_sup).
                    if is_sub \<or> is_sup then [(t, is_sub, is_sup)]
                    else split_for_subscripts U t)"
    by (rule ext) (simp add: expand_run_def)
  then show ?thesis by (simp add: make_runs_def)
qed

lemma filter_superscript_expand_run:
  "filter superscript_run (expand_run U r) = filter superscript_run [r]"
proof -
  obtain t b c where r: "r = (t, b, c)" by (cases r)
  show ?thesis
    by (simp add: r expand_run_def superscript_run_simp split_for_subscripts_def
        split_for_subscripts_from_no_sup)
qed

lemma filter_superscript_expand:
  "filter superscript_run (concat (map (expand_run U) rs)) = filter superscript_run rs"
proof (induction rs)
  case Nil
  show ?case by simp
next
  case (Cons r rs)
  have "filter superscript_run (concat (map (expand_run U) (r # rs)))
          = filter superscript_run (expand_run U r)
            @ filter superscript_run (concat (map (expand_run U) rs))"
    by simp
  also have "\<dots> = filter superscript_run [r] @ filter superscript_run rs"
    by (simp only: filter_superscript_expand_run Cons.IH)
  finally show ?case by simp
qed

lemma styled_kept:
  "set (filter styled_run rs) \<subseteq> set (concat (map (expand_run U) rs))"
proof (induction rs)
  case Nil
  show ?case by simp
next
  case (Cons r rs)
  obtain t b c where r: "r = (t, b, c)" by (cases r)
  have "styled_run r \<Longrightarrow> r \<in> set (expand_run U r)"
    by (simp add: r styled_run_simp expand_run_def)
  with Cons.IH show ?case by auto
qed

lemma split_single: "split_for_subscripts U [c] = [([c], False, False)]"
proof -
  have 1: "skip_plain U [c] (Suc 0) = Suc 0"
    by (subst skip_plain.simps) simp
  have 2: "split_for_subscripts_from U [c] (Suc 0) = []"
    by (subst split_for_subscripts_from.simps) simp
  show ?thesis
    unfolding split_for_subscripts_def
    by (subst split_for_subscripts_from.simps) (simp add: subscript_at_def 1 2 slice_def)
qed

lemma N_runs: "latex_like_to_runs (ustr ''N^{2+}'') = [(ustr ''N'', False, False), (ustr ''2+'', False, True)]"
  by code_simp

lemma N_nospace: "\<not> list_ex is_space (ustr ''N^{2+}'')"
  by code_simp

lemma N_str: "ustr ''N'' = [78]"
  by code_simp

text \<open>
  C5. For \<open>N^{2+}\<close> the combined tokenizer (\<open>_make_runs\<close>) yields the run \<open>N\<close> without
  style and the run \<open>2+\<close> as superscript, whatever the Unicode tables are. The inference
  on bare digits is not applied to a run that the explicit scan has styled: for every
  input the superscript runs of the result are those of the explicit scan, in order and
  unsplit, and every styled run of the explicit scan is a run of the result.
\<close>

theorem explicit_markup_precedence:
  "make_runs U (ustr ''N^{2+}'') = [(ustr ''N'', False, False), (ustr ''2+'', False, True)]
   \<and> filter superscript_run (make_runs U content)
       = filter superscript_run (latex_like_to_runs (normalize_chem_spacing U content))
   \<and> set (filter styled_run (latex_like_to_runs (normalize_chem_spacing U content)))
       \<subseteq> set (make_runs U content)"
proof -
  have "expand_run U ([78], False, False) = [([78], False, False)]"
    by (simp add: expand_run_def split_single)
  moreover have "expand_run U (ustr ''2+'', False, True) = [(ustr ''2+'', False, True)]"
    by (simp add: expand_run_def)
  ultimately have
    "make_runs U (ustr ''N^{2+}'') = [(ustr ''N'', False, False), (ustr ''2+'', False, True)]"
    by (simp add: make_runs_expand normalize_no_space[OF N_nospace] N_runs N_str)
  moreover have "filter superscript_run (make_runs U content)
       = filter superscript_run (latex_like_to_runs (normalize_chem_spacing U content))"
    by (simp only: make_runs_expand filter_superscript_expand)
  moreover have "set (filter styled_run (latex_like_to_runs (normalize_chem_spacing U content)))
       \<subseteq> set (make_runs U content)"
    by (simp only: make_runs_expand styled_kept)
  ultimately show ?thesis by blast
qed

theorem explicit_markup_precedence_witness:
  "make_runs ascii_tables (ustr ''N^{2+}'') = [(ustr ''N'', False, False), (ustr ''2+'', False, True)]
   \<and> filter superscript_run (make_runs ascii_tables (ustr ''H2O^{2+}''))
       = filter superscript_run (latex_like_to_runs (normalize_chem_spacing ascii_tables (ustr ''H2O^{2+}'')))
   \<and> filter superscript_run (make_runs ascii_tables (ustr ''H2O^{2+}'')) = [(ustr ''2+'', False, True)]"
proof -
  have "filter superscript_run (make_runs ascii_tables (ustr ''H2O^{2+}'')) = [(ustr ''2+'', False, True)]"
    by code_simp
  then show ?thesis
    using explicit_markup_precedence [of ascii_tables "ustr ''H2O^{2+}''"] by simp
qed

section \<open>Braces in the explicit scan\<close>

text \<open>
  C4. The two scans do not agree on a nested brace. For \<open>x^{a{b}c}\<close> the scan of the
  Markdown converter (\<open>latex_like_to_runs\<close>) ends the superscript at the first closing
  brace: its content is \<open>a{b\<close>, and \<open>c}\<close> follows as plain text. The scan of the baseline
  writer (\<open>_add_parsed_line\<close>) counts the depth and takes \<open>a{b}c\<close>.
\<close>

theorem first_brace_not_matching:
  "latex_like_to_runs (ustr ''x^{a{b}c}'')
     = [(ustr ''x'', False, False), (ustr ''a{b'', False, True), (ustr ''c}'', False, False)]
   \<and> add_parsed_line ascii_tables [] (ustr ''x^{a{b}c}'')
     = ([(ustr ''x'', False, False), (ustr ''a{b}c'', False, True)], None)"
  by code_simp

section \<open>The model calls\<close>

text \<open>Example services: one whose first call fails, one that is down, and one that reads
  images but answers every refinement with status 429.\<close>

definition example_response :: response where
  "example_response = \<lparr>choices = Some [Some (ContentStr (ustr ''$H_2O$''))],
     output_text = None, repr = ustr ''ChatCompletionResponse''\<rparr>"

definition flaky_env :: env where
  "flaky_env = \<lparr>tables = ascii_tables,
     chat_complete = (\<lambda>n req. if n = 0 then Inl (OtherException (ustr ''timeout''))
                              else Inr example_response),
     sdk_error_imported = True\<rparr>"

definition down_env :: env where
  "down_env = \<lparr>tables = ascii_tables,
     chat_complete = (\<lambda>n req. Inl (OtherException (ustr ''timeout''))),
     sdk_error_imported = True\<rparr>"

definition busy_env :: env where
  "busy_env = \<lparr>tables = ascii_tables,
     chat_complete = (\<lambda>n req. case req of
         VisionRequest model data mime_type \<Rightarrow> Inr example_response
       | RefineRequest model_name raw_text \<Rightarrow> Inl (SDKError (Some 429) (ustr ''Status 429''))),
     sdk_error_imported = True\<rparr>"

definition new_world :: world where
  "new_world = \<lparr>calls = [], sleeps = []\<rparr>"

lemma vit_extract_text_error:
  "vit_extract_text E w data mime_type model = (w1, Inl e) \<Longrightarrow> \<exists>msg. e = ChemistryOCRError msg"
  by (auto simp: vit_extract_text_def split: if_splits sum.splits)

text \<open>
  C9. When the extraction with the configured model fails (the call to the service fails,
  or the payload is empty) and the model is not \<open>pixtral-12b\<close>, the extraction is done
  once more with \<open>pixtral-12b\<close>, and its outcome, error or text, is the outcome of the
  extraction: the calls made are those of the first attempt and one call with the
  fallback model. When the configured model is \<open>pixtral-12b\<close> itself, nothing more is
  called and the error is the result of \<open>process_image_bytes_vit\<close>.
\<close>

theorem vision_fallback:
  assumes "vit_extract_text E w data mime_type model = (w1, Inl e)"
  shows "(model \<noteq> ustr ''pixtral-12b'' \<longrightarrow>
            extract_draft E w data mime_type model
              = vit_extract_text E w1 data mime_type (ustr ''pixtral-12b'')
            \<and> calls (fst (extract_draft E w data mime_type model))
              = calls w1 @ (if data = [] then []
                            else [VisionRequest (ustr ''pixtral-12b'') data mime_type]))
       \<and> (model = ustr ''pixtral-12b'' \<longrightarrow>
            extract_draft E w data mime_type model = (w1, Inl e)
            \<and> process_image_bytes_vit E w data mime_type model = (w1, Inl e))"
proof -
  from assms obtain msg where e: "e = ChemistryOCRError msg"
    using vit_extract_text_error by blast
  have c: "calls (fst (vit_extract_text E w1 data mime_type m))
             = calls w1 @ (if data = [] then [] else [VisionRequest m data mime_type])" for m
    by (simp add: vit_extract_text_def split: sum.splits)
  have a: "extract_draft E w data mime_type model
             = (if model \<noteq> ustr ''pixtral-12b''
                then vit_extract_text E w1 data mime_type (ustr ''pixtral-12b'')
                else (w1, Inl e))"
    by (simp add: extract_draft_def assms[unfolded e] e)
  have b: "extract_draft E w data mime_type model = (w1, Inl e) \<Longrightarrow>
             process_image_bytes_vit E w data mime_type model = (w1, Inl e)"
    by (simp add: process_image_bytes_vit_def)
  show ?thesis
  proof (cases "model = ustr ''pixtral-12b''")
    case True
    with a have "extract_draft E w data mime_type model = (w1, Inl e)" by simp
    with b True show ?thesis by simp
  next
    case False
    with a have "extract_draft E w data mime_type model
                   = vit_extract_text E w1 data mime_type (ustr ''pixtral-12b'')" by simp
    with c False show ?thesis by simp
  qed
qed

theorem vision_fallback_witness:
  "extract_draft flaky_env new_world [137, 80] (ustr ''image/png'') (ustr ''pixtral-large-latest'')
     = (\<lparr>calls = [VisionRequest (ustr ''pixtral-large-latest'') [137, 80] (ustr ''image/png''),
                   VisionRequest (ustr ''pixtral-12b'') [137, 80] (ustr ''image/png'')],
          sleeps = []\<rparr>, Inr (ustr ''$H_2O$''))
   \<and> process_image_bytes_vit down_env new_world [137, 80] (ustr ''image/png'') (ustr ''pixtral-12b'')
     = (\<lparr>calls = [VisionRequest (ustr ''pixtral-12b'') [137, 80] (ustr ''image/png'')],
          sleeps = []\<rparr>, Inl (ChemistryOCRError (ustr ''Vision request failed: timeout'')))"
proof -
  let ?w1 = "\<lparr>calls = [VisionRequest (ustr ''pixtral-large-latest'') [137, 80] (ustr ''image/png'')],
          sleeps = []\<rparr>"
  let ?w2 = "\<lparr>calls = [VisionRequest (ustr ''pixtral-12b'') [137, 80] (ustr ''image/png'')],
          sleeps = []\<rparr>"
  let ?e = "ChemistryOCRError (ustr ''Vision request failed: timeout'')"
  have 1: "vit_extract_text flaky_env new_world [137, 80] (ustr ''image/png'') (ustr ''pixtral-large-latest'')
          = (?w1, Inl ?e)"
    by (simp add: vit_extract_text_def flaky_env_def new_world_def ustr_def)
  have 2: "vit_extract_text flaky_env ?w1 [137, 80] (ustr ''image/png'') (ustr ''pixtral-12b'')
          = (\<lparr>calls = [VisionRequest (ustr ''pixtral-large-latest'') [137, 80] (ustr ''image/png''),
                   VisionRequest (ustr ''pixtral-12b'') [137, 80] (ustr ''image/png'')],
          sleeps = []\<rparr>, Inr (ustr ''$H_2O$''))"
    by (simp add: vit_extract_text_def flaky_env_def vit_response_text_def choice_text_def
        example_response_def ustr_def)
  have 3: "vit_extract_text down_env new_world [137, 80] (ustr ''image/png'') (ustr ''pixtral-12b'')
          = (?w2, Inl ?e)"
    by (simp add: vit_extract_text_def down_env_def new_world_def ustr_def)
  have 4: "ustr ''pixtral-large-latest'' \<noteq> ustr ''pixtral-12b''"
    by (simp add: ustr_def)
  from vision_fallback [OF 1] vision_fallback [OF 3] 2 4 show ?thesis by simp
qed

text \<open>A service that answers every refinement request with a rate-limit error.\<close>

definition always_rate_limited :: "env \<Rightarrow> ustring \<Rightarrow> ustring \<Rightarrow> (nat \<Rightarrow> exn) \<Rightarrow> bool" where
  "always_rate_limited E model_name raw_text err =
     (\<forall>n. chat_complete E n (RefineRequest model_name raw_text) = Inl (err n)
          \<and> caught_as_sdk_error E (err n) \<and> is_rate_limit E (err n))"

lemma refine_loop_rate_limited:
  assumes "always_rate_limited E model_name raw_text err" and "0 \<le> base_sleep"
  shows "refine_loop E raw_text model_name base_sleep attempt remaining last_err w
     = (w\<lparr>calls := calls w @ replicate remaining (RefineRequest model_name raw_text),
           sleeps := sleeps w @ map (\<lambda>a. base_sleep * 2 ^ a) [attempt ..< attempt + remaining]\<rparr>,
        if remaining = 0 then (case last_err of Some e \<Rightarrow> Inl e | None \<Rightarrow> Inr raw_text)
        else Inl (err (length (calls w) + remaining - 1)))"
proof (induction remaining arbitrary: attempt last_err w)
  case 0
  show ?case by simp
next
  case (Suc remaining)
  let ?req = "RefineRequest model_name raw_text"
  let ?w1 = "w\<lparr>calls := calls w @ [?req], sleeps := sleeps w @ [base_sleep * 2 ^ attempt]\<rparr>"
  from assms(1) have e: "chat_complete E (length (calls w)) ?req = Inl (err (length (calls w)))"
    "caught_as_sdk_error E (err (length (calls w)))" "is_rate_limit E (err (length (calls w)))"
    by (simp_all add: always_rate_limited_def)
  from assms(2) have "0 \<le> base_sleep * 2 ^ attempt"
    by (intro mult_nonneg_nonneg) simp_all
  then have nn: "\<not> base_sleep * 2 ^ attempt < 0" by (simp add: not_less)
  have "refine_loop E raw_text model_name base_sleep attempt (Suc remaining) last_err w
          = refine_loop E raw_text model_name base_sleep (attempt + 1) remaining
              (Some (err (length (calls w)))) ?w1"
    using e nn by simp
  also have "\<dots> = (?w1\<lparr>calls := calls ?w1 @ replicate remaining ?req,
           sleeps := sleeps ?w1 @ map (\<lambda>a. base_sleep * 2 ^ a) [attempt + 1 ..< attempt + 1 + remaining]\<rparr>,
        if remaining = 0 then Inl (err (length (calls w)))
        else Inl (err (length (calls ?w1) + remaining - 1)))"
    by (simp only: Suc.IH option.case)
  also have "\<dots> = (w\<lparr>calls := calls w @ replicate (Suc remaining) ?req,
           sleeps := sleeps w @ map (\<lambda>a. base_sleep * 2 ^ a) [attempt ..< attempt + Suc remaining]\<rparr>,
        Inl (err (length (calls w) + Suc remaining - 1)))"
    by (simp add: upt_rec[of attempt] replicate_app_Cons_same)
  finally show ?case by simp
qed

text \<open>
  C1. When the service answers every refinement request with a rate-limit error, then
  \<open>_refine_text_with_retry\<close> with a non-negative \<open>base_sleep\<close> calls it exactly
  \<open>max_retries\<close> times and sleeps \<open>base_sleep * 2 ** attempt\<close> after the attempts
  \<open>0, \<dots>, max_retries - 1\<close>, and raises the last error when \<open>max_retries\<close> is positive.
  \<open>process_image_bytes_vit\<close> calls it with the defaults: after a draft has been
  extracted there are three refinement calls, the sleeps are 1, 2 and 4, and the
  document is built from the cleaned draft instead of an error of the refinement.
\<close>

theorem refinement_exhaustion:
  assumes "always_rate_limited E model_name raw_text err"
  shows "(0 \<le> base_sleep \<longrightarrow>
           fst (refine_text_with_retry E w raw_text model_name max_retries base_sleep)
             = w\<lparr>calls := calls w @ replicate (nat max_retries) (RefineRequest model_name raw_text),
                  sleeps := sleeps w @ map (\<lambda>attempt. base_sleep * 2 ^ attempt) [0 ..< nat max_retries]\<rparr>
           \<and> (0 < max_retries \<longrightarrow>
                 snd (refine_text_with_retry E w raw_text model_name max_retries base_sleep)
                   = Inl (err (length (calls w) + nat max_retries - 1))))
       \<and> (model_name = ustr ''mistral-small-latest''
            \<and> extract_draft E w0 data mime_type model = (w, Inr raw_text) \<longrightarrow>
           process_image_bytes_vit E w0 data mime_type model
             = (w\<lparr>calls := calls w @ replicate 3 (RefineRequest model_name raw_text),
                  sleeps := sleeps w @ [1, 2, 4]\<rparr>,
                create_docx_bytes (tables E) (final_cleanup raw_text)))"
proof -
  have a: "refine_text_with_retry E w raw_text model_name max_retries base_sleep
       = (w\<lparr>calls := calls w @ replicate (nat max_retries) (RefineRequest model_name raw_text),
           sleeps := sleeps w @ map (\<lambda>a. base_sleep * 2 ^ a) [0 ..< nat max_retries]\<rparr>,
        if nat max_retries = 0 then Inr raw_text
        else Inl (err (length (calls w) + nat max_retries - 1)))"
    if "0 \<le> base_sleep" for max_retries base_sleep
    unfolding refine_text_with_retry_def
    by (simp add: refine_loop_rate_limited[OF assms that])
  have three: "[0 ..< nat 3] = [0, 1, 2]"
    by (simp add: upt_rec)
  have b: "refine_text_with_retry E w raw_text model_name 3 1
       = (w\<lparr>calls := calls w @ replicate 3 (RefineRequest model_name raw_text),
           sleeps := sleeps w @ [1, 2, 4]\<rparr>,
        Inl (err (length (calls w) + 2)))"
    by (simp add: a three numeral_3_eq_3)
  show ?thesis
    using a b by (auto simp: process_image_bytes_vit_def)
qed

theorem refinement_exhaustion_witness:
  "always_rate_limited busy_env (ustr ''mistral-small-latest'') (ustr ''$H_2O$'')
     (\<lambda>n. SDKError (Some 429) (ustr ''Status 429''))
   \<and> process_image_bytes_vit busy_env new_world [137, 80] (ustr ''image/png'') (ustr ''pixtral-12b'')
     = (\<lparr>calls = [VisionRequest (ustr ''pixtral-12b'') [137, 80] (ustr ''image/png''),
                   RefineRequest (ustr ''mistral-small-latest'') (ustr ''$H_2O$''),
                   RefineRequest (ustr ''mistral-small-latest'') (ustr ''$H_2O$''),
                   RefineRequest (ustr ''mistral-small-latest'') (ustr ''$H_2O$'')],
          sleeps = [1, 2, 4]\<rparr>,
        Inr [[(ustr ''H'', False, False), (ustr ''2'', True, False), (ustr ''O'', False, False)]])"
proof -
  let ?w = "\<lparr>calls = [VisionRequest (ustr ''pixtral-12b'') [137, 80] (ustr ''image/png'')],
          sleeps = []\<rparr>"
  have h: "always_rate_limited busy_env (ustr ''mistral-small-latest'') (ustr ''$H_2O$'')
     (\<lambda>n. SDKError (Some 429) (ustr ''Status 429''))"
    by (simp add: always_rate_limited_def busy_env_def caught_as_sdk_error_def
        is_rate_limit_def status_code_def)
  have d: "extract_draft busy_env new_world [137, 80] (ustr ''image/png'') (ustr ''pixtral-12b'')
          = (?w, Inr (ustr ''$H_2O$''))"
    by (simp add: extract_draft_def vit_extract_text_def busy_env_def new_world_def
        vit_response_text_def choice_text_def example_response_def ustr_def)
  have c: "create_docx_bytes (tables busy_env) (final_cleanup (ustr ''$H_2O$''))
          = Inr [[(ustr ''H'', False, False), (ustr ''2'', True, False), (ustr ''O'', False, False)]]"
    by code_simp
  from refinement_exhaustion [OF h, of 1 ?w 3 new_world "[137, 80]" "ustr ''image/png''" "ustr ''pixtral-12b''"]
    h d c show ?thesis by (simp add: numeral_3_eq_3)
qed

section \<open>The lines of a text segment\<close>

definition new_par :: "run list \<Rightarrow> docx_paragraph" where
  "new_par rs = \<lparr>alignment = Unset, runs = rs\<rparr>"

definition nonblank :: "ustring \<Rightarrow> bool" where
  "nonblank l = (strip l \<noteq> [])"

text \<open>
  Where the runs of the non-blank lines of a text segment go: those of the first line
  into the open paragraph, if there is one, those of every other line into a new
  paragraph of its own.
\<close>

fun place :: "docx_paragraph list \<Rightarrow> nat option \<Rightarrow> run list list \<Rightarrow> docx_paragraph list" where
  "place d None rss = d @ map new_par rss"
| "place d (Some k) [] = d"
| "place d (Some k) (rs # rss) = add_runs d k rs @ map new_par rss"

definition append_line :: "unicode_tables \<Rightarrow> assembler \<Rightarrow> ustring \<Rightarrow> assembler" where
  "append_line U st l = add_to_current (open_paragraph st) (make_runs U (strip l))"

lemma text_line_step:
  "text_line U n st (i, l) =
     (if nonblank l then
        (if i < n - 1 then (append_line U st l)\<lparr>current_paragraph := None\<rparr>
         else append_line U st l)
      else st)"
  by (simp add: text_line_def Let_def nonblank_def append_line_def)

lemma document_append_line:
  "document (append_line U st l) = place (document st) (current_paragraph st) [make_runs U (strip l)]"
  by (cases "current_paragraph st")
     (simp_all add: append_line_def open_paragraph_def add_to_current_def add_paragraph_def
        add_runs_def new_par_def)

lemma current_append_line: "current_paragraph (append_line U st l) \<noteq> None"
  by (cases "current_paragraph st")
     (simp_all add: append_line_def open_paragraph_def add_to_current_def)

lemma place_place:
  "place d cur [rs] @ map new_par rss = place d cur (rs # rss)"
  by (cases cur) simp_all

lemma text_lines_from:
  "document (foldl (text_line U (i + length ls)) st (enumerate i ls))
     = place (document st) (current_paragraph st)
         (map (\<lambda>l. make_runs U (strip l)) (filter nonblank ls))
   \<and> (current_paragraph (foldl (text_line U (i + length ls)) st (enumerate i ls)) = None)
     = (if filter nonblank ls = [] then current_paragraph st = None
        else \<not> nonblank (last ls))"
proof (induction ls arbitrary: i st)
  case Nil
  show ?case by (cases "current_paragraph st") simp_all
next
  case (Cons l ls)
  define st1 where "st1 = text_line U (Suc (i + length ls)) st (i, l)"
  have f: "foldl (text_line U (i + length (l # ls))) st (enumerate i (l # ls))
             = foldl (text_line U (Suc i + length ls)) st1 (enumerate (Suc i) ls)"
    by (simp add: st1_def)
  have fl: "filter nonblank (l # ls) = (if nonblank l then [l] else []) @ filter nonblank ls"
    by simp
  note IH = Cons.IH[of "Suc i" st1]
  show ?case
  proof (cases "nonblank l")
    case False
    then have "st1 = st" by (simp add: st1_def text_line_step)
    with IH False show ?thesis unfolding f by (cases "filter nonblank ls = []") auto
  next
    case True
    show ?thesis
    proof (cases "ls = []")
      case True
      with \<open>nonblank l\<close> show ?thesis
        by (simp add: text_line_step document_append_line current_append_line)
    next
      case False
      then have "i < Suc (i + length ls) - 1" by (cases ls) simp_all
      with True have st1: "st1 = (append_line U st l)\<lparr>current_paragraph := None\<rparr>"
        by (simp add: st1_def text_line_step)
      have d1: "document st1 = place (document st) (current_paragraph st) [make_runs U (strip l)]"
        and c1: "current_paragraph st1 = None"
        by (simp_all add: st1 document_append_line)
      have lst: "last (l # ls) = last ls" using False by simp
      have bl: "filter nonblank ls = [] \<Longrightarrow> \<not> nonblank (last ls)"
        using False by (metis filter_empty_conv last_in_set)
      from IH have doc: "document (foldl (text_line U (Suc i + length ls)) st1 (enumerate (Suc i) ls))
          = place (document st) (current_paragraph st)
              (make_runs U (strip l) # map (\<lambda>l. make_runs U (strip l)) (filter nonblank ls))"
        by (simp add: d1 c1 place_place del: map_map)
      from IH have cur: "(current_paragraph (foldl (text_line U (Suc i + length ls)) st1 (enumerate (Suc i) ls)) = None)
          = (\<not> nonblank (last ls))"
        using bl by (simp add: c1)
      show ?thesis
        unfolding f fl lst using doc cur True by simp
    qed
  qed
qed

text \<open>
  The text segment as the specification words it: a non-blank line is appended to the
  open paragraph (one is opened if none is open), a blank line closes the paragraph.
\<close>

definition spec_text_line :: "unicode_tables \<Rightarrow> assembler \<Rightarrow> ustring \<Rightarrow> assembler" where
  "spec_text_line U st raw =
     (if strip raw \<noteq> [] then add_to_current (open_paragraph st) (make_runs U (strip raw))
      else st\<lparr>current_paragraph := None\<rparr>)"

definition spec_text_lines :: "unicode_tables \<Rightarrow> assembler \<Rightarrow> ustring list \<Rightarrow> assembler" where
  "spec_text_lines U st lines = foldl (spec_text_line U) st lines"

text \<open>
  C3, as the specification states it, does not hold. The segment \<open>a\<close>, newline, \<open>b\<close> has
  no blank line, and its two lines go into two paragraphs: the non-blank line \<open>a\<close> has
  closed the paragraph. After the inline formula \<open>x\<close> the segment newline, \<open>y\<close> begins
  with a blank line, and \<open>y\<close> goes into the paragraph of \<open>x\<close>: the blank line has not
  closed it. Read as the specification words it, the first segment gives one paragraph
  and the second one two. The same shows in whole documents.
\<close>

theorem text_segment_counterexample:
  "text_lines ascii_tables \<lparr>document = [], current_paragraph = None\<rparr>
      (split_on 10 (ustr ''a'' @ [10] @ ustr ''b''))
     = \<lparr>document = [new_par [(ustr ''a'', False, False)], new_par [(ustr ''b'', False, False)]],
         current_paragraph = Some 1\<rparr>
   \<and> spec_text_lines ascii_tables \<lparr>document = [], current_paragraph = None\<rparr>
      (split_on 10 (ustr ''a'' @ [10] @ ustr ''b''))
     = \<lparr>document = [new_par [(ustr ''a'', False, False), (ustr ''b'', False, False)]],
         current_paragraph = Some 0\<rparr>
   \<and> text_lines ascii_tables
      \<lparr>document = [new_par [(ustr ''x'', False, False)]], current_paragraph = Some 0\<rparr>
      (split_on 10 ([10] @ ustr ''y''))
     = \<lparr>document = [new_par [(ustr ''x'', False, False), (ustr ''y'', False, False)]],
         current_paragraph = Some 0\<rparr>
   \<and> spec_text_lines ascii_tables
      \<lparr>document = [new_par [(ustr ''x'', False, False)]], current_paragraph = Some 0\<rparr>
      (split_on 10 ([10] @ ustr ''y''))
     = \<lparr>document = [new_par [(ustr ''x'', False, False)], new_par [(ustr ''y'', False, False)]],
         current_paragraph = Some 1\<rparr>
   \<and> create_word_document ascii_tables (ustr ''a'' @ [10] @ ustr ''b'')
     = [new_par [(ustr ''a'', False, False)], new_par [(ustr ''b'', False, False)]]
   \<and> create_word_document ascii_tables (ustr ''$x$'' @ [10] @ ustr ''y'')
     = [new_par [(ustr ''x'', False, False), (ustr ''y'', False, False)]]"
  by code_simp

text \<open>
  C3, amended. A text segment is split at its newlines. The runs of every non-blank line
  are appended to the open paragraph, and one is opened if none is open; a non-blank
  line that is not the last line of the segment then closes the paragraph, so that every
  later non-blank line of the segment starts a paragraph of its own; a blank line adds
  nothing and closes nothing. After the segment no paragraph is open exactly when its
  last line is blank and one of its lines is not, or when no line is non-blank and none
  was open before.
\<close>

theorem text_segment_paragraphs:
  "document (text_lines U st ls)
     = place (document st) (current_paragraph st)
         (map (\<lambda>l. make_runs U (strip l)) (filter nonblank ls))
   \<and> (current_paragraph (text_lines U st ls) = None)
     = (if filter nonblank ls = [] then current_paragraph st = None
        else \<not> nonblank (last ls))"
  using text_lines_from [of U 0 ls st] by (simp add: text_lines_def)

theorem text_segment_paragraphs_witness:
  "document (text_lines ascii_tables \<lparr>document = [], current_paragraph = None\<rparr>
      (split_on 10 (ustr ''Na'' @ [10, 10] @ ustr ''Cl'')))
     = [new_par [(ustr ''Na'', False, False)], new_par [(ustr ''Cl'', False, False)]]
   \<and> current_paragraph (text_lines ascii_tables \<lparr>document = [], current_paragraph = None\<rparr>
      (split_on 10 (ustr ''Na'' @ [10, 10] @ ustr ''Cl''))) \<noteq> None"
proof -
  have "place [] None (map (\<lambda>l. make_runs ascii_tables (strip l))
          (filter nonblank (split_on 10 (ustr ''Na'' @ [10, 10] @ ustr ''Cl''))))
        = [new_par [(ustr ''Na'', False, False)], new_par [(ustr ''Cl'', False, False)]]"
    by code_simp
  moreover have "filter nonblank (split_on 10 (ustr ''Na'' @ [10, 10] @ ustr ''Cl'')) \<noteq> []"
    by code_simp
  moreover have "nonblank (last (split_on 10 (ustr ''Na'' @ [10, 10] @ ustr ''Cl'')))"
    by code_simp
  ultimately show ?thesis
    using text_segment_paragraphs [of ascii_tables "\<lparr>document = [], current_paragraph = None\<rparr>"
        "split_on 10 (ustr ''Na'' @ [10, 10] @ ustr ''Cl'')"]
    by simp
qed

section \<open>The spacing normalizer\<close>

text \<open>The characters of a string that are not white space, in order.\<close>

definition visible :: "ustring \<Rightarrow> ustring" where
  "visible s = filter (\<lambda>c. \<not> is_space c) s"

lemma first_match_SomeD:
  "first_match r p s = Some (n, g) \<Longrightarrow>
     \<exists>p' s'. (p', s', g) \<in> set (matches r (p, s, None)) \<and> n = length s - length s'"
  by (auto simp: first_match_def split: list.splits)

lemma first_match_le:
  "first_match r p s = Some (n, g) \<Longrightarrow> n \<le> length s"
  by (auto simp: first_match_def split: list.splits)

lemma visible_append: "visible (a @ b) = visible a @ visible b"
  by (simp add: visible_def)

lemma visible_spaces: "list_all is_space s \<Longrightarrow> visible s = []"
  by (induction s) (auto simp: visible_def)

text \<open>A substitution that matches white space only and writes white space only keeps
  the other characters.\<close>

lemma re_sub_visible_aux:
  "(\<forall>p s n g. first_match r p s = Some (n, g) \<longrightarrow>
             list_all is_space (take n s) \<and> list_all is_space (expand t g))
   \<Longrightarrow> visible (re_sub r t p s) = visible s"
proof (induction r t p s rule: re_sub.induct)
  case (1 r t p)
  show ?case
  proof (cases "first_match r p []")
    case None
    then show ?thesis by simp
  next
    case (Some a)
    obtain n g where a: "a = (n, g)" by (cases a)
    from "1.prems" Some[unfolded a] have "list_all is_space (expand t g)" by blast
    with Some a show ?thesis by (simp add: visible_spaces)
  qed
next
  case (2 r t p c cs)
  show ?case
  proof (cases "first_match r p (c # cs)")
    case None
    with 2(1)[OF None "2.prems"] show ?thesis by (simp add: visible_def)
  next
    case (Some a)
    obtain n g where a: "a = (n, g)" by (cases a)
    from "2.prems" Some[unfolded a]
    have sp: "list_all is_space (take n (c # cs))" "list_all is_space (expand t g)" by blast+
    show ?thesis
    proof (cases "n = 0")
      case True
      from 2(2)[OF Some a[symmetric] True "2.prems"] Some a True sp show ?thesis
        by (simp add: visible_append visible_spaces) (simp add: visible_def)
    next
      case False
      have "visible (c # cs) = visible (take n (c # cs)) @ visible (drop n (c # cs))"
        by (metis append_take_drop_id visible_append)
      with 2(3)[OF Some a[symmetric] False "2.prems"] Some a False sp show ?thesis
        by (simp add: visible_append visible_spaces)
    qed
  qed
qed

lemma re_sub_visible:
  assumes "\<And>p s n g. first_match r p s = Some (n, g) \<Longrightarrow>
             list_all is_space (take n s) \<and> list_all is_space (expand t g)"
  shows "visible (re_sub r t p s) = visible s"
  by (rule re_sub_visible_aux) (use assms in blast)

lemma join_rule_match:
  assumes "first_match (join_rule P Q) p s = Some (n, g)"
  shows "0 < n \<and> n \<le> length (takeWhile is_space s) \<and> g = None"
proof -
  from first_match_SomeD[OF assms] obtain p' s' where
    m: "(p', s', g) \<in> set (matches (join_rule P Q) (p, s, None))" and n: "n = length s - length s'"
    by blast
  from m obtain st1 st2 where 1: "st1 \<in> set (matches (Behind P) (p, s, None))"
    and 2: "st2 \<in> set (matches (Rep is_space 1 None) st1)"
    and 3: "(p', s', g) \<in> set (matches (Ahead Q) st2)"
    by (auto simp: join_rule_def)
  from 1 have st1: "st1 = (p, s, None)" by (auto split: if_splits)
  from 2 obtain j where j: "1 \<le> j" "j \<le> length (takeWhile is_space s)" "st2 = consume (p, s, None) j"
    unfolding st1 matches_Rep_iff by auto
  from 3 j have "s' = drop j s" "g = None"
    by (auto simp: consume_def split: list.splits if_splits)
  moreover have "length (takeWhile is_space s) \<le> length s" by (rule length_takeWhile_le)
  ultimately show ?thesis using j n by auto
qed

lemma spaces_match:
  assumes "first_match pat_spaces p s = Some (n, g)"
  shows "0 < n \<and> n \<le> length (takeWhile is_space s) \<and> g = None"
proof -
  from first_match_SomeD[OF assms] obtain p' s' where
    m: "(p', s', g) \<in> set (matches pat_spaces (p, s, None))" and n: "n = length s - length s'"
    by blast
  from m obtain j where j: "1 \<le> j" "j \<le> length (takeWhile is_space s)" "(p', s', g) = consume (p, s, None) j"
    unfolding pat_spaces_def matches_Rep_iff by auto
  then have "s' = drop j s" "g = None" by (auto simp: consume_def)
  moreover have "length (takeWhile is_space s) \<le> length s" by (rule length_takeWhile_le)
  ultimately show ?thesis using j n by auto
qed

lemma take_takeWhile_spaces:
  "n \<le> length (takeWhile is_space s) \<Longrightarrow> list_all is_space (take n s)"
proof -
  assume a: "n \<le> length (takeWhile is_space s)"
  have "take n s = take n (takeWhile is_space s @ dropWhile is_space s)" by simp
  also have "\<dots> = take n (takeWhile is_space s)" using a by (simp del: takeWhile_dropWhile_id)
  finally have "set (take n s) \<subseteq> set (takeWhile is_space s)" by (simp add: set_take_subset)
  then show ?thesis by (auto simp: list_all_iff dest: set_takeWhileD)
qed

lemma visible_join_rule: "visible (re_sub (join_rule P Q) [] p s) = visible s"
  by (rule re_sub_visible) (auto dest!: join_rule_match simp: take_takeWhile_spaces)

lemma visible_collapse:
  "visible (re_sub pat_spaces [TLit (ustr '' '')] p s) = visible s"
proof (rule re_sub_visible)
  fix p s n g
  assume "first_match pat_spaces p s = Some (n, g)"
  from spaces_match[OF this] have "list_all is_space (take n s)"
    by (simp add: take_takeWhile_spaces)
  moreover have "list_all is_space (expand [TLit (ustr '' '')] g)"
    by (simp add: ustr_def is_space_def)
  ultimately show "list_all is_space (take n s) \<and> list_all is_space (expand [TLit (ustr '' '')] g)"
    by simp
qed

lemma visible_dropWhile: "visible (dropWhile is_space s) = visible s"
  by (induction s) (auto simp: visible_def)

lemma visible_rev: "visible (rev s) = rev (visible s)"
  by (simp add: visible_def rev_filter)

lemma visible_strip: "visible (strip s) = visible s"
  by (simp add: strip_def visible_rev visible_dropWhile)

text \<open>
  C10. \<open>normalize_chem_spacing\<close> changes white space only: the characters of its result
  that are not white space are those of its argument, one for one and in order.
\<close>

theorem normalize_keeps_visible:
  "visible (normalize_chem_spacing U x) = visible x"
  unfolding normalize_chem_spacing_def Let_def
  by (simp only: visible_strip visible_collapse visible_join_rule)

theorem normalize_keeps_visible_witness:
  "visible (normalize_chem_spacing ascii_tables (ustr '' H 2 O   and Si Cl4 ''))
     = visible (ustr '' H 2 O   and Si Cl4 '')
   \<and> normalize_chem_spacing ascii_tables (ustr '' H 2 O   and Si Cl4 '') = ustr ''H2O andSiCl4''"
proof -
  have "normalize_chem_spacing ascii_tables (ustr '' H 2 O   and Si Cl4 '') = ustr ''H2O andSiCl4''"
    by code_simp
  then show ?thesis
    using normalize_keeps_visible [of ascii_tables "ustr '' H 2 O   and Si Cl4 ''"] by simp
qed

section \<open>The normalizer is idempotent\<close>

text \<open>The length of the white space at the start of a string.\<close>

definition space_run :: "ustring \<Rightarrow> nat" where
  "space_run s = length (takeWhile is_space s)"

definition behind :: "(nat \<Rightarrow> bool) \<Rightarrow> nat option \<Rightarrow> bool" where
  "behind P p = (case p of None \<Rightarrow> False | Some c \<Rightarrow> P c)"

lemma concat_map_Nil: "(\<And>x. x \<in> set xs \<Longrightarrow> f x = []) \<Longrightarrow> concat (map f xs) = []"
  by (induction xs) auto

lemma rev_upt_Suc: "m \<le> k \<Longrightarrow> rev [m ..< Suc k] = k # rev [m ..< k]"
  by simp

lemma takeWhile_nth_space:
  "j < length (takeWhile is_space s) \<Longrightarrow> is_space (s ! j)"
  by (metis nth_mem set_takeWhileD takeWhile_nth)

lemma drop_nth_Cons: "j < length s \<Longrightarrow> drop j s = s ! j # drop (Suc j) s"
  by (simp add: Cons_nth_drop_Suc)

text \<open>The matches of white space before a class that holds no white space: only the
  whole run can be followed by such a character.\<close>

lemma matches_spaces_ahead:
  assumes Q: "\<And>c. Q c \<Longrightarrow> \<not> is_space c"
  shows "matches (Seq (Rep is_space 1 None) (Ahead Q)) (p, s, g)
     = (if 0 < length (takeWhile is_space s) \<and> length (takeWhile is_space s) < length s
           \<and> Q (s ! length (takeWhile is_space s))
        then [consume (p, s, g) (length (takeWhile is_space s))] else [])"
proof -
  define k where "k = length (takeWhile is_space s)"
  have kle: "k \<le> length s" unfolding k_def by (rule length_takeWhile_le)
  have small: "matches (Ahead Q) (consume (p, s, g) j) = []" if "j \<in> set (rev [1 ..< k])" for j
  proof -
    from that have j: "1 \<le> j" "j < k" by auto
    with kle have "drop j s = s ! j # drop (Suc j) s" by (simp add: drop_nth_Cons)
    moreover from j(2) have "is_space (s ! j)" unfolding k_def by (rule takeWhile_nth_space)
    ultimately show ?thesis using Q by (auto simp: consume_def)
  qed
  have top: "matches (Ahead Q) (consume (p, s, g) k)
               = (if k < length s \<and> Q (s ! k) then [consume (p, s, g) k] else [])"
  proof (cases "k < length s")
    case True
    then have "drop k s = s ! k # drop (Suc k) s" by (simp add: drop_nth_Cons)
    with True show ?thesis by (simp add: consume_def)
  next
    case False
    with kle have "drop k s = []" by simp
    with False show ?thesis by (simp add: consume_def)
  qed
  show ?thesis
  proof (cases "0 < k")
    case False
    then show ?thesis by (simp add: k_def[symmetric] Let_def)
  next
    case True
    then have "rev [1 ..< Suc k] = k # rev [1 ..< k]" by (intro rev_upt_Suc) simp
    then have "matches (Seq (Rep is_space 1 None) (Ahead Q)) (p, s, g)
        = matches (Ahead Q) (consume (p, s, g) k)
          @ concat (map (matches (Ahead Q)) (map (consume (p, s, g)) (rev [1 ..< k])))"
      by (simp add: k_def[symmetric] Let_def del: upt_Suc)
    also have "concat (map (matches (Ahead Q)) (map (consume (p, s, g)) (rev [1 ..< k]))) = []"
      unfolding map_map by (rule concat_map_Nil) (use small in simp)
    finally show ?thesis using True top by (simp add: k_def[symmetric])
  qed
qed

lemma matches_Behind_Seq:
  "matches (Seq (Behind P) X) (p, s, g) = (if behind P p then matches X (p, s, g) else [])"
  by (simp add: behind_def)

lemma join_rule_Seq: "join_rule P Q = Seq (Behind P) (Seq (Rep is_space 1 None) (Ahead Q))"
  by (simp add: join_rule_def)

lemma join_rule_first_match:
  assumes Q: "\<And>c. Q c \<Longrightarrow> \<not> is_space c"
  shows "first_match (join_rule P Q) p s
     = (if behind P p \<and> 0 < space_run s \<and> space_run s < length s \<and> Q (s ! space_run s)
        then Some (space_run s, None) else None)"
proof -
  have kle: "length (takeWhile is_space s) \<le> length s" by (rule length_takeWhile_le)
  have "matches (join_rule P Q) (p, s, None)
          = (if behind P p \<and> 0 < length (takeWhile is_space s) \<and> length (takeWhile is_space s) < length s
           \<and> Q (s ! length (takeWhile is_space s))
             then [consume (p, s, None) (length (takeWhile is_space s))] else [])"
    by (simp only: join_rule_Seq matches_Behind_Seq matches_spaces_ahead[OF Q] if_distrib
        split: if_splits) simp
  then show ?thesis
    unfolding first_match_def space_run_def
    using kle by (simp add: consume_def)
qed

lemma spaces_first_match:
  "first_match pat_spaces p s
     = (if 0 < space_run s then Some (space_run s, None) else None)"
proof -
  define k where "k = length (takeWhile is_space s)"
  have kle: "k \<le> length s" unfolding k_def by (rule length_takeWhile_le)
  show ?thesis
  proof (cases "0 < k")
    case False
    then show ?thesis by (simp add: first_match_def pat_spaces_def space_run_def k_def[symmetric] Let_def)
  next
    case True
    then have "rev [1 ..< Suc k] = k # rev [1 ..< k]" by (intro rev_upt_Suc) simp
    then have "matches (Rep is_space 1 None) (p, s, None)
        = consume (p, s, None) k # map (consume (p, s, None)) (rev [1 ..< k])"
      by (simp add: k_def[symmetric] Let_def del: upt_Suc)
    with True kle show ?thesis
      by (simp add: first_match_def pat_spaces_def space_run_def k_def[symmetric] consume_def)
  qed
qed

text \<open>
  A string is a list of tokens, each a character that is not white space with the white
  space before it, and the white space at its end.
\<close>

type_synonym token = "ustring \<times> nat"

definition flat :: "token list \<Rightarrow> ustring \<Rightarrow> ustring" where
  "flat ts e = concat (map (\<lambda>(g, c). g @ [c]) ts) @ e"

definition token_ok :: "token \<Rightarrow> bool" where
  "token_ok t = (case t of (g, c) \<Rightarrow> list_all is_space g \<and> \<not> is_space c)"

lemma flat_Nil: "flat [] e = e"
  by (simp add: flat_def)

lemma flat_Cons: "flat ((g, c) # ts) e = g @ c # flat ts e"
  by (simp add: flat_def)

lemma token_ok_simp: "token_ok (g, c) = (list_all is_space g \<and> \<not> is_space c)"
  by (simp add: token_ok_def)

lemma tokens_exist:
  "\<exists>ts e. list_all token_ok ts \<and> list_all is_space e \<and> s = flat ts e"
proof (induction s)
  case Nil
  have "list_all token_ok [] \<and> list_all is_space [] \<and> [] = flat [] []"
    by (simp add: flat_Nil)
  then show ?case by blast
next
  case (Cons c s)
  then obtain ts e where ok: "list_all token_ok ts" "list_all is_space e" and s: "s = flat ts e"
    by blast
  show ?case
  proof (cases "is_space c")
    case False
    with ok s have "list_all token_ok (([], c) # ts) \<and> list_all is_space e
        \<and> c # s = flat (([], c) # ts) e"
      by (simp add: flat_Cons token_ok_simp)
    then show ?thesis by blast
  next
    case True
    show ?thesis
    proof (cases ts)
      case Nil
      with ok s True have "list_all token_ok [] \<and> list_all is_space (c # e)
          \<and> c # s = flat [] (c # e)"
        by (simp add: flat_Nil)
      then show ?thesis by blast
    next
      case (Cons t ts')
      obtain g d where t: "t = (g, d)" by (cases t)
      from ok s True Cons t have "list_all token_ok ((c # g, d) # ts') \<and> list_all is_space e
          \<and> c # s = flat ((c # g, d) # ts') e"
        by (simp add: flat_Cons token_ok_simp)
      then show ?thesis by blast
    qed
  qed
qed

lemma space_run_gap:
  "list_all is_space g \<Longrightarrow> \<not> is_space c \<Longrightarrow> space_run (g @ c # rest) = length g"
  unfolding space_run_def by (induction g) auto

lemma space_run_char: "\<not> is_space c \<Longrightarrow> space_run (c # rest) = 0"
  by (simp add: space_run_def)

lemma space_run_Nil: "space_run [] = 0"
  by (simp add: space_run_def)

lemma space_run_all: "list_all is_space e \<Longrightarrow> space_run e = length e"
  unfolding space_run_def by (induction e) auto

text \<open>A join rule on a gap and the character behind it.\<close>

lemma re_sub_join_char:
  assumes Q: "\<And>x. Q x \<Longrightarrow> \<not> is_space x" and c: "\<not> is_space c"
  shows "re_sub (join_rule P Q) [] p (c # rest) = c # re_sub (join_rule P Q) [] (Some c) rest"
proof -
  from c have "first_match (join_rule P Q) p (c # rest) = None"
    by (simp add: join_rule_first_match[OF Q] space_run_char)
  then show ?thesis by simp
qed

lemma re_sub_join_gap:
  assumes P: "\<And>x. P x \<Longrightarrow> \<not> is_space x" and Q: "\<And>x. Q x \<Longrightarrow> \<not> is_space x"
    and c: "\<not> is_space c"
  shows "list_all is_space g \<Longrightarrow>
     re_sub (join_rule P Q) [] p (g @ c # rest)
       = (if g \<noteq> [] \<and> behind P p \<and> Q c then [] else g)
         @ c # re_sub (join_rule P Q) [] (Some c) rest"
proof (induction g arbitrary: p)
  case Nil
  show ?case by (simp del: re_sub.simps add: re_sub_join_char[OF Q c])
next
  case (Cons w g)
  then have g: "list_all is_space g" and w: "is_space w" by simp_all
  let ?s = "(w # g) @ c # rest"
  have tw: "space_run ?s = length (w # g)"
    using Cons.prems c by (rule space_run_gap)
  have fm: "first_match (join_rule P Q) p ?s
              = (if behind P p \<and> Q c then Some (Suc (length g), None) else None)"
    using tw by (simp add: join_rule_first_match[OF Q] nth_append)
  have s: "?s = w # (g @ c # rest)" by simp
  show ?case
  proof (cases "behind P p \<and> Q c")
    case True
    with fm have "re_sub (join_rule P Q) [] p ?s
        = re_sub (join_rule P Q) [] (Some (?s ! length g)) (drop (Suc (length g)) ?s)"
      unfolding s by (subst re_sub.simps(2)) simp
    also have "drop (Suc (length g)) ?s = c # rest" by simp
    finally show ?thesis using True
      by (simp del: re_sub.simps add: re_sub_join_char[OF Q c])
  next
    case False
    with fm have "re_sub (join_rule P Q) [] p ?s
        = w # re_sub (join_rule P Q) [] (Some w) (g @ c # rest)"
      unfolding s by (subst re_sub.simps(2)) simp
    moreover from w P have "\<not> behind P (Some w)" by (auto simp: behind_def)
    ultimately show ?thesis using Cons.IH[OF g, of "Some w"] False
      by (simp del: re_sub.simps)
  qed
qed

lemma re_sub_join_tail:
  assumes Q: "\<And>x. Q x \<Longrightarrow> \<not> is_space x"
  shows "list_all is_space e \<Longrightarrow> re_sub (join_rule P Q) [] p e = e"
proof (induction e arbitrary: p)
  case Nil
  show ?case by (simp add: join_rule_first_match[OF Q] space_run_Nil)
next
  case (Cons w e)
  from Cons.prems have "space_run (w # e) = length (w # e)" by (rule space_run_all)
  then have "first_match (join_rule P Q) p (w # e) = None"
    by (simp add: join_rule_first_match[OF Q])
  with Cons show ?case by simp
qed

fun del :: "(nat \<Rightarrow> bool) \<Rightarrow> (nat \<Rightarrow> bool) \<Rightarrow> nat option \<Rightarrow> token list \<Rightarrow> token list" where
  "del P Q p [] = []"
| "del P Q p ((g, c) # ts) =
     ((if g \<noteq> [] \<and> behind P p \<and> Q c then [] else g), c) # del P Q (Some c) ts"

lemma re_sub_join_flat:
  assumes P: "\<And>x. P x \<Longrightarrow> \<not> is_space x" and Q: "\<And>x. Q x \<Longrightarrow> \<not> is_space x"
  shows "list_all token_ok ts \<Longrightarrow> list_all is_space e \<Longrightarrow>
     re_sub (join_rule P Q) [] p (flat ts e) = flat (del P Q p ts) e"
proof (induction ts arbitrary: p)
  case Nil
  then show ?case by (simp add: flat_Nil re_sub_join_tail[OF Q])
next
  case (Cons t ts)
  obtain g c where t: "t = (g, c)" by (cases t)
  from Cons.prems t have ok: "list_all is_space g" "\<not> is_space c" "list_all token_ok ts"
    by (simp_all add: token_ok_simp)
  show ?case
    unfolding t flat_Cons del.simps
    by (simp only: re_sub_join_gap[OF P Q ok(2) ok(1)] Cons.IH[OF ok(3) Cons.prems(2)])
qed

lemma del_ok: "list_all token_ok ts \<Longrightarrow> list_all token_ok (del P Q p ts)"
  by (induction ts arbitrary: p) (auto simp: token_ok_simp)


text \<open>The last substitution on a gap, and \<open>strip\<close>.\<close>

definition one_space :: "ustring \<Rightarrow> ustring" where
  "one_space g = (if g \<noteq> [] then [32] else [])"

lemma re_sub_collapse_char:
  "\<not> is_space c \<Longrightarrow>
     re_sub pat_spaces [TLit (ustr '' '')] p (c # rest)
       = c # re_sub pat_spaces [TLit (ustr '' '')] (Some c) rest"
  by (simp add: spaces_first_match space_run_char)

lemma ustr_space: "ustr '' '' = [32]"
  by (simp add: ustr_def)

lemma re_sub_collapse_gap:
  assumes g: "list_all is_space g" and c: "\<not> is_space c"
  shows "re_sub pat_spaces [TLit (ustr '' '')] p (g @ c # rest)
       = one_space g @ c # re_sub pat_spaces [TLit (ustr '' '')] (Some c) rest"
proof (cases g)
  case Nil
  with c show ?thesis by (simp del: re_sub.simps add: re_sub_collapse_char one_space_def)
next
  case (Cons w g')
  let ?s = "(w # g') @ c # rest"
  have tw: "space_run ?s = length (w # g')"
    using g[unfolded Cons] c by (rule space_run_gap)
  have fm: "first_match pat_spaces p ?s = Some (Suc (length g'), None)"
    using tw by (simp add: spaces_first_match)
  have s: "?s = w # (g' @ c # rest)" by simp
  from fm have "re_sub pat_spaces [TLit (ustr '' '')] p ?s
        = [32] @ re_sub pat_spaces [TLit (ustr '' '')] (Some (?s ! length g'))
                   (drop (Suc (length g')) ?s)"
    unfolding s by (subst re_sub.simps(2)) (simp add: ustr_space)
  also have "drop (Suc (length g')) ?s = c # rest" by simp
  finally show ?thesis using c
    by (simp del: re_sub.simps add: re_sub_collapse_char Cons one_space_def)
qed

lemma re_sub_collapse_tail:
  "list_all is_space e \<Longrightarrow>
     re_sub pat_spaces [TLit (ustr '' '')] p e = one_space e"
proof (cases e)
  case Nil
  then show ?thesis by (simp add: spaces_first_match space_run_Nil one_space_def)
next
  case (Cons w e')
  assume "list_all is_space e"
  then have "space_run (w # e') = length (w # e')" unfolding Cons by (rule space_run_all)
  then have fm: "first_match pat_spaces p (w # e') = Some (Suc (length e'), None)"
    by (simp add: spaces_first_match)
  have "re_sub pat_spaces [TLit (ustr '' '')] p (w # e')
          = [32] @ re_sub pat_spaces [TLit (ustr '' '')] (Some ((w # e') ! length e'))
                     (drop (Suc (length e')) (w # e'))"
    by (subst re_sub.simps(2)) (simp add: fm ustr_space)
  also have "drop (Suc (length e')) (w # e') = []" by simp
  finally show ?thesis
    by (simp add: Cons spaces_first_match space_run_Nil one_space_def)
qed

definition squeeze :: "token list \<Rightarrow> token list" where
  "squeeze ts = map (\<lambda>(g, c). (one_space g, c)) ts"

lemma re_sub_collapse_flat:
  "list_all token_ok ts \<Longrightarrow> list_all is_space e \<Longrightarrow>
     re_sub pat_spaces [TLit (ustr '' '')] p (flat ts e)
       = flat (squeeze ts) (one_space e)"
proof (induction ts arbitrary: p)
  case Nil
  then show ?case by (simp add: flat_Nil squeeze_def re_sub_collapse_tail)
next
  case (Cons t ts)
  obtain g c where t: "t = (g, c)" by (cases t)
  from Cons.prems t have ok: "list_all is_space g" "\<not> is_space c" "list_all token_ok ts"
    by (simp_all add: token_ok_simp)
  have sq: "squeeze ((g, c) # ts) = (one_space g, c) # squeeze ts"
    by (simp add: squeeze_def)
  show ?case
    unfolding t flat_Cons sq
    by (simp only: re_sub_collapse_gap[OF ok(1) ok(2)] Cons.IH[OF ok(3) Cons.prems(2)])
qed

lemma one_space_ok: "list_all is_space (one_space g)"
  by (simp add: one_space_def is_space_def)

lemma squeeze_ok: "list_all token_ok ts \<Longrightarrow> list_all token_ok (squeeze ts)"
  by (induction ts) (auto simp: squeeze_def token_ok_simp one_space_ok)

lemma flat_last:
  "list_all token_ok ts \<Longrightarrow> ts \<noteq> [] \<Longrightarrow> flat ts [] \<noteq> [] \<and> \<not> is_space (last (flat ts []))"
proof (induction ts)
  case Nil
  then show ?case by simp
next
  case (Cons t ts)
  obtain g c where t: "t = (g, c)" by (cases t)
  show ?case
  proof (cases "ts = []")
    case True
    with Cons.prems t show ?thesis by (simp add: flat_Cons flat_Nil token_ok_simp)
  next
    case False
    with Cons have "flat ts [] \<noteq> [] \<and> \<not> is_space (last (flat ts []))" by simp
    then show ?thesis by (simp add: t flat_Cons)
  qed
qed

lemma flat_append_tail: "flat ts e = flat ts [] @ e"
  by (simp add: flat_def)

lemma dropWhile_rev_spaces:
  "list_all is_space e \<Longrightarrow> x \<noteq> [] \<Longrightarrow> \<not> is_space (last x) \<Longrightarrow>
     rev (dropWhile is_space (rev (x @ e))) = x"
proof -
  assume e: "list_all is_space e" and x: "x \<noteq> []" "\<not> is_space (last x)"
  from e have "dropWhile is_space (rev e @ rev x) = dropWhile is_space (rev x)"
    by (intro dropWhile_append2) (auto simp: list_all_iff)
  moreover from x have "dropWhile is_space (rev x) = rev x"
    by (cases x rule: rev_cases) auto
  ultimately show ?thesis by simp
qed

lemma strip_flat:
  assumes "list_all token_ok ts" "list_all is_space e"
  shows "strip (flat ts e) = (case ts of [] \<Rightarrow> [] | (g, c) # ts' \<Rightarrow> flat (([], c) # ts') [])"
proof (cases ts)
  case Nil
  from assms(2) have "dropWhile is_space e = []" by (simp add: list_all_iff)
  with Nil show ?thesis by (auto simp: strip_def flat_Nil dest: set_dropWhileD)
next
  case (Cons t ts')
  obtain g c where t: "t = (g, c)" by (cases t)
  from assms(1) Cons t have ok: "list_all is_space g" "\<not> is_space c" "list_all token_ok ts'"
    by (simp_all add: token_ok_simp)
  from ok have tk: "list_all token_ok (([], c) # ts')" by (simp add: token_ok_simp)
  from ok have "dropWhile is_space (flat ts e) = c # flat ts' e"
    unfolding Cons t flat_Cons by (induction g) auto
  also have "\<dots> = flat (([], c) # ts') [] @ e"
    by (simp add: flat_Cons flat_append_tail[of ts' e])
  finally have d: "dropWhile is_space (flat ts e) = flat (([], c) # ts') [] @ e" .
  from flat_last[OF tk] have "flat (([], c) # ts') [] \<noteq> []"
    "\<not> is_space (last (flat (([], c) # ts') []))" by simp_all
  from dropWhile_rev_spaces[OF assms(2) this] d show ?thesis
    by (simp add: strip_def Cons t)
qed


text \<open>
  The whole normalizer on tokens: the gap before a character vanishes when it is empty or
  one of the four rules joins the character to the one before it, and is one space
  otherwise; the white space at both ends is stripped.
\<close>

definition joinable :: "unicode_tables \<Rightarrow> nat option \<Rightarrow> nat \<Rightarrow> bool" where
  "joinable U p c =
     ((behind ascii_letter p \<and> decimal U c)
      \<or> (behind (decimal U) p \<and> (ascii_letter c \<or> c = 40 \<or> c = 91 \<or> c = 123))
      \<or> (behind ascii_lower p \<and> ascii_upper c)
      \<or> (behind (\<lambda>c. c = 41 \<or> c = 93 \<or> c = 125) p \<and> decimal U c))"

fun gaps :: "unicode_tables \<Rightarrow> nat option \<Rightarrow> token list \<Rightarrow> token list" where
  "gaps U p [] = []"
| "gaps U p ((g, c) # ts) =
     ((if g = [] \<or> joinable U p c then [] else [32]), c) # gaps U (Some c) ts"

definition canon :: "unicode_tables \<Rightarrow> token list \<Rightarrow> token list" where
  "canon U ts = (case gaps U None ts of [] \<Rightarrow> [] | (g, c) # ts' \<Rightarrow> ([], c) # ts')"

lemma squeeze_del:
  "squeeze (del (\<lambda>c. c = 41 \<or> c = 93 \<or> c = 125) (decimal U) p
      (del ascii_lower ascii_upper p
        (del (decimal U) (\<lambda>c. ascii_letter c \<or> c = 40 \<or> c = 91 \<or> c = 123) p
          (del ascii_letter (decimal U) p ts))))
     = gaps U p ts"
proof (induction ts arbitrary: p)
  case Nil
  show ?case by (simp add: squeeze_def)
next
  case (Cons t ts)
  obtain g c where t: "t = (g, c)" by (cases t)
  have sq: "squeeze (x # xs) = (one_space (fst x), snd x) # squeeze xs" for x xs
    by (simp add: squeeze_def split_beta)
  show ?case
    unfolding t del.simps sq gaps.simps
    using Cons.IH[of "Some c"]
    by (auto simp: one_space_def joinable_def)
qed

lemma ascii_letter_visible: "ascii_letter c \<Longrightarrow> \<not> is_space c"
  by (auto simp: ascii_letter_def ascii_upper_def ascii_lower_def is_space_def)

lemma ascii_lower_visible: "ascii_lower c \<Longrightarrow> \<not> is_space c"
  by (auto simp: ascii_lower_def is_space_def)

lemma ascii_upper_visible: "ascii_upper c \<Longrightarrow> \<not> is_space c"
  by (auto simp: ascii_upper_def is_space_def)

lemma opening_visible: "ascii_letter c \<or> c = 40 \<or> c = 91 \<or> c = 123 \<Longrightarrow> \<not> is_space c"
  by (auto simp: ascii_letter_def ascii_upper_def ascii_lower_def is_space_def)

lemma closing_visible: "c = 41 \<or> c = 93 \<or> c = 125 \<Longrightarrow> \<not> is_space c"
  by (auto simp: is_space_def)

lemma gaps_ok: "list_all token_ok ts \<Longrightarrow> list_all token_ok (gaps U p ts)"
  by (induction ts arbitrary: p) (auto simp: token_ok_simp is_space_def)

lemma canon_ok: "list_all token_ok ts \<Longrightarrow> list_all token_ok (canon U ts)"
proof -
  assume "list_all token_ok ts"
  then have "list_all token_ok (gaps U None ts)" by (rule gaps_ok)
  then show ?thesis
    by (cases "gaps U None ts") (auto simp: canon_def token_ok_simp)
qed

lemma normalize_flat:
  assumes D: "\<And>c. decimal U c \<Longrightarrow> \<not> is_space c"
    and ts: "list_all token_ok ts" and e: "list_all is_space e"
  shows "normalize_chem_spacing U (flat ts e) = flat (canon U ts) []"
proof -
  let ?t1 = "del ascii_letter (decimal U) None ts"
  let ?t2 = "del (decimal U) (\<lambda>c. ascii_letter c \<or> c = 40 \<or> c = 91 \<or> c = 123) None ?t1"
  let ?t3 = "del ascii_lower ascii_upper None ?t2"
  let ?t4 = "del (\<lambda>c. c = 41 \<or> c = 93 \<or> c = 125) (decimal U) None ?t3"
  have 1: "re_sub (join_rule ascii_letter (decimal U)) [] None (flat ts e) = flat ?t1 e"
    using ascii_letter_visible D ts e by (rule re_sub_join_flat)
  have ok1: "list_all token_ok ?t1" using ts by (rule del_ok)
  have 2: "re_sub (join_rule (decimal U) (\<lambda>c. ascii_letter c \<or> c = 40 \<or> c = 91 \<or> c = 123)) []
             None (flat ?t1 e) = flat ?t2 e"
    using D opening_visible ok1 e by (rule re_sub_join_flat)
  have ok2: "list_all token_ok ?t2" using ok1 by (rule del_ok)
  have 3: "re_sub (join_rule ascii_lower ascii_upper) [] None (flat ?t2 e) = flat ?t3 e"
    using ascii_lower_visible ascii_upper_visible ok2 e by (rule re_sub_join_flat)
  have ok3: "list_all token_ok ?t3" using ok2 by (rule del_ok)
  have 4: "re_sub (join_rule (\<lambda>c. c = 41 \<or> c = 93 \<or> c = 125) (decimal U)) [] None (flat ?t3 e)
             = flat ?t4 e"
    using closing_visible D ok3 e by (rule re_sub_join_flat)
  have ok4: "list_all token_ok ?t4" using ok3 by (rule del_ok)
  have 5: "re_sub pat_spaces [TLit (ustr '' '')] None (flat ?t4 e)
             = flat (squeeze ?t4) (one_space e)"
    using ok4 e by (rule re_sub_collapse_flat)
  have g: "squeeze ?t4 = gaps U None ts" by (rule squeeze_del)
  have okg: "list_all token_ok (gaps U None ts)" using ts by (rule gaps_ok)
  have "normalize_chem_spacing U (flat ts e) = strip (flat (gaps U None ts) (one_space e))"
    unfolding normalize_chem_spacing_def Let_def by (simp only: 1 2 3 4 5 g)
  also have "\<dots> = (case gaps U None ts of [] \<Rightarrow> [] | (g, c) # ts' \<Rightarrow> flat (([], c) # ts') [])"
    using okg one_space_ok by (rule strip_flat)
  also have "\<dots> = flat (canon U ts) []"
    by (cases "gaps U None ts") (auto simp: canon_def flat_Nil)
  finally show ?thesis .
qed

lemma gaps_gaps: "gaps U p (gaps U p ts) = gaps U p ts"
  by (induction ts arbitrary: p) auto

lemma canon_canon: "canon U (canon U ts) = canon U ts"
proof (cases ts)
  case Nil
  then show ?thesis by (simp add: canon_def)
next
  case (Cons t ts')
  obtain g c where t: "t = (g, c)" by (cases t)
  have "canon U ts = ([], c) # gaps U (Some c) ts'"
    by (simp add: canon_def Cons t)
  then show ?thesis by (simp add: canon_def gaps_gaps)
qed

text \<open>
  C8. \<open>normalize_chem_spacing\<close> is idempotent, for Unicode tables in which no decimal
  digit is white space (as it is in Unicode).
\<close>

theorem normalize_idempotent:
  assumes "\<And>c. decimal U c \<Longrightarrow> \<not> is_space c"
  shows "normalize_chem_spacing U (normalize_chem_spacing U x) = normalize_chem_spacing U x"
proof -
  obtain ts e where ok: "list_all token_ok ts" "list_all is_space e" and x: "x = flat ts e"
    using tokens_exist by blast
  have 1: "normalize_chem_spacing U x = flat (canon U ts) []"
    unfolding x using assms ok by (rule normalize_flat)
  have e0: "list_all is_space ([] :: ustring)" by simp
  have "normalize_chem_spacing U (flat (canon U ts) []) = flat (canon U (canon U ts)) []"
    using assms canon_ok[OF ok(1)] e0 by (rule normalize_flat)
  then show ?thesis by (simp add: 1 canon_canon)
qed

theorem normalize_idempotent_witness:
  "normalize_chem_spacing ascii_tables (ustr '' Fe ( OH ) 3  +  H 2 O '') = ustr ''Fe ( OH )3 + H2O''
   \<and> normalize_chem_spacing ascii_tables
         (normalize_chem_spacing ascii_tables (ustr '' Fe ( OH ) 3  +  H 2 O ''))
       = normalize_chem_spacing ascii_tables (ustr '' Fe ( OH ) 3  +  H 2 O '')"
proof -
  have d: "decimal ascii_tables c \<Longrightarrow> \<not> is_space c" for c
    by (auto simp: ascii_tables_def ascii_digit_def is_space_def)
  have "normalize_chem_spacing ascii_tables (ustr '' Fe ( OH ) 3  +  H 2 O '') = ustr ''Fe ( OH )3 + H2O''"
    by code_simp
  then show ?thesis
    using normalize_idempotent [of ascii_tables "ustr '' Fe ( OH ) 3  +  H 2 O ''", OF d] by simp
qed

section \<open>What the converter keeps\<close>


lemma take_takeWhile_all:
  "j \<le> length (takeWhile P s) \<Longrightarrow> (\<And>c. P c \<Longrightarrow> S c) \<Longrightarrow> list_all S (take j s)"
proof -
  assume j: "j \<le> length (takeWhile P s)" and PS: "\<And>c. P c \<Longrightarrow> S c"
  have "take j s = take j (takeWhile P s @ dropWhile P s)" by simp
  also have "\<dots> = take j (takeWhile P s)" using j by (simp del: takeWhile_dropWhile_id)
  finally have "set (take j s) \<subseteq> set (takeWhile P s)" by (simp add: set_take_subset)
  then show ?thesis using PS by (auto simp: list_all_iff dest: set_takeWhileD)
qed










subsection \<open>The non-command characters of the specification\<close>





text \<open>
  A string gives no command a brace argument and holds no artefact \<open>{=}\<close> when no
  \<open>{\<close> stands directly behind an ASCII letter, a \<open>*\<close> or a \<open>]\<close> (93) and no \<open>=\<close>
  directly behind a \<open>{\<close>.
\<close>

definition bad_pair :: "nat \<Rightarrow> nat \<Rightarrow> bool" where
  "bad_pair a b = ((b = 123 \<and> (ascii_letter a \<or> a = 42 \<or> a = 93)) \<or> (a = 123 \<and> b = 61))"

fun no_argument :: "ustring \<Rightarrow> bool" where
  "no_argument (a # b # s) = (\<not> bad_pair a b \<and> no_argument (b # s))"
| "no_argument [a] = True"
| "no_argument [] = True"

text \<open>The first two substitutions of \<open>convert_latex_to_simple\<close>, which unwrap
  \<open>\mathrm{X}\<close> and \<open>\text{X}\<close>.\<close>

definition unwrap :: "ustring \<Rightarrow> ustring" where
  "unwrap s = re_sub pat_text [TGroup] None (re_sub pat_mathrm [TGroup] None s)"

subsection \<open>The texts of a pattern\<close>

text \<open>The texts that a pattern can consume.\<close>

fun texts :: "regex \<Rightarrow> ustring \<Rightarrow> bool" where
  "texts Eps w = (w = [])"
| "texts (Lit v) w = (w = v)"
| "texts (Rep P m n) w =
     (list_all P w \<and> m \<le> length w \<and> (case n of None \<Rightarrow> True | Some b \<Rightarrow> length w \<le> b))"
| "texts (Lazy P) w = list_all P w"
| "texts (Seq a b) w = (\<exists>u v. w = u @ v \<and> texts a u \<and> texts b v)"
| "texts (Alt a b) w = (texts a w \<or> texts b w)"
| "texts (Group r) w = texts r w"
| "texts (Behind P) w = (w = [])"
| "texts (Ahead P) w = (w = [])"

lemma take_takeWhile_class:
  "j \<le> length (takeWhile P s) \<Longrightarrow> list_all P (take j s)"
  by (rule take_takeWhile_all) simp_all

lemma texts_matches:
  "(p', s', g') \<in> set (matches r (p, s, g)) \<Longrightarrow> texts r (take (length s - length s') s)"
proof (induction r arbitrary: p s g p' s' g')
  case Eps
  then show ?case by simp
next
  case (Lit w)
  then have w: "take (length w) s = w" "s' = drop (length w) s"
    by (auto simp: consume_def split: if_splits)
  then have "length w \<le> length s" by (simp add: take_eq_imp_le)
  then have "length s - length s' = length w" using w by simp
  with w show ?case by simp
next
  case (Rep P m n)
  then obtain j where j: "m \<le> j" "j \<le> length (takeWhile P s)" "s' = drop j s"
    and b: "case n of None \<Rightarrow> True | Some b \<Rightarrow> j \<le> b"
    unfolding matches_Rep_iff by (auto simp: consume_def)
  have "length (takeWhile P s) \<le> length s" by (rule length_takeWhile_le)
  with j have "length s - length s' = j" "j \<le> length s" by simp_all
  with j b show ?case by (simp add: take_takeWhile_class min_absorb2 split: option.splits)
next
  case (Lazy P)
  then obtain j where j: "j \<le> length (takeWhile P s)" "s' = drop j s"
    unfolding matches_Lazy_iff by (auto simp: consume_def)
  have "length (takeWhile P s) \<le> length s" by (rule length_takeWhile_le)
  with j have "length s - length s' = j" by simp
  with j show ?case by (simp add: take_takeWhile_class)
next
  case (Seq a b)
  from Seq.prems obtain p1 s1 g1 where a: "(p1, s1, g1) \<in> set (matches a (p, s, g))"
    and b: "(p', s', g') \<in> set (matches b (p1, s1, g1))" by auto
  from matches_consume[OF a] obtain j where j: "j \<le> length s" "s1 = drop j s"
    by blast
  from matches_consume[OF b] obtain k where k: "k \<le> length s1" "s' = drop k s1"
    by blast
  from j k have len: "length s - length s' = j + k" "length s - length s1 = j" "length s1 - length s' = k"
    by auto
  have tk: "take (j + k) s = take j s @ take k (drop j s)" by (simp add: take_add)
  from Seq.IH(1)[OF a] Seq.IH(2)[OF b] len tk j show ?case by auto
next
  case (Alt a b)
  then show ?case by auto
next
  case (Group r)
  then show ?case by auto
next
  case (Behind P)
  then show ?case by (auto split: if_splits)
next
  case (Ahead P)
  then show ?case by (auto split: list.splits if_splits)
qed

lemma texts_first_match:
  "first_match r p s = Some (n, g) \<Longrightarrow> texts r (take n s)"
  by (auto dest!: first_match_SomeD texts_matches)

subsection \<open>Reading a string from a position inside or outside a command\<close>











subsection \<open>A substitution that rewrites what is not literal\<close>






subsection \<open>Strings without brace arguments\<close>

lemma no_argument_Cons: "no_argument (a # s) \<Longrightarrow> no_argument s"
  by (cases s) simp_all


lemma no_argument_appendD: "no_argument (w @ z) \<Longrightarrow> no_argument w"
proof (induction w rule: no_argument.induct)
  case (1 a b s)
  then show ?case by simp
qed simp_all

lemma no_argument_take: "no_argument s \<Longrightarrow> no_argument (take n s)"
  by (metis append_take_drop_id no_argument_appendD)

lemma no_argument_pair: "no_argument (x @ a # b # y) \<Longrightarrow> \<not> bad_pair a b"
proof (induction x rule: no_argument.induct)
  case (1 c d s)
  then show ?case by simp
next
  case (2 c)
  then show ?case by simp
next
  case 3
  then show ?case by simp
qed












text \<open>A pattern whose every text holds a bad pair matches nowhere in such a string.\<close>

lemma re_sub_needs_pair:
  assumes "\<And>w. texts r w \<Longrightarrow> \<not> no_argument w" and "no_argument s"
  shows "re_sub r t p s = s"
  using assms(2)
proof (induction s arbitrary: p)
  case Nil
  have "first_match r p [] = None"
  proof (cases "first_match r p []")
    case (Some a)
    obtain n g where a: "a = (n, g)" by (cases a)
    from texts_first_match[OF Some[unfolded a]] have "texts r []" by simp
    from assms(1)[OF this] have False by simp
    then show ?thesis ..
  qed simp
  then show ?case by simp
next
  case (Cons c cs)
  have "first_match r p (c # cs) = None"
  proof (cases "first_match r p (c # cs)")
    case (Some a)
    obtain n g where a: "a = (n, g)" by (cases a)
    from texts_first_match[OF Some[unfolded a]] assms(1)
    have "\<not> no_argument (take n (c # cs))" by blast
    with Cons.prems no_argument_take have False by blast
    then show ?thesis ..
  qed simp
  moreover from Cons.prems have "no_argument cs" by (rule no_argument_Cons)
  ultimately show ?case using Cons.IH by simp
qed

subsection \<open>The substitutions of the converter\<close>


















text \<open>The passes that take a brace argument, and the pass for the artefact, match a
  bad pair.\<close>

lemma pair_mathrm: "texts pat_mathrm w \<Longrightarrow> \<not> no_argument w"
  by (auto simp: pat_mathrm_def ustr_def bad_pair_def ascii_letter_def ascii_lower_def)

lemma pair_text: "texts pat_text w \<Longrightarrow> \<not> no_argument w"
  by (auto simp: pat_text_def ustr_def bad_pair_def ascii_letter_def ascii_lower_def)

lemma pair_begin_end: "texts pat_begin_end w \<Longrightarrow> \<not> no_argument w"
  by (auto simp: pat_begin_end_def ustr_def bad_pair_def ascii_letter_def ascii_lower_def)

lemma pair_xrightarrow: "texts pat_xrightarrow w \<Longrightarrow> \<not> no_argument w"
proof
  assume t: "texts pat_xrightarrow w" and n: "no_argument w"
  from t obtain x y where "w = x @ 93 # 123 # y"
    by (auto simp: pat_xrightarrow_def ustr_def) (metis append_Cons append_assoc)
  with n have "\<not> bad_pair 93 123" by (auto dest: no_argument_pair)
  then show False by (simp add: bad_pair_def)
qed

lemma pair_artifact: "texts pat_artifact w \<Longrightarrow> \<not> no_argument w"
proof
  assume t: "texts pat_artifact w" and n: "no_argument w"
  from t obtain x y where "w = x @ 123 # 61 # y"
    by (auto simp: pat_artifact_def ustr_def) (metis append_Cons append_assoc)
  with n have "\<not> bad_pair 123 61" by (auto dest: no_argument_pair)
  then show False by (simp add: bad_pair_def)
qed

lemma pair_command_arg: "texts pat_command_arg w \<Longrightarrow> \<not> no_argument w"
proof
  assume t: "texts pat_command_arg w" and n: "no_argument w"
  from t obtain u v y where
    w: "w = 92 # u @ v @ 123 # y" and u: "list_all ascii_letter u" "1 \<le> length u"
    and v: "list_all (is_char 42) v" "length v \<le> 1"
    by (auto simp: pat_command_arg_def ustr_def)
  from v have "v = [] \<or> v = [42]" by (cases v) (auto simp: is_char_def)
  then show False
  proof
    assume "v = []"
    from u obtain u' a where ua: "u = u' @ [a]" "ascii_letter a"
      by (cases u rule: rev_cases) auto
    with w \<open>v = []\<close> have "w = (92 # u') @ a # 123 # y" by simp
    with n have "\<not> bad_pair a 123" by (metis no_argument_pair)
    with ua show False by (simp add: bad_pair_def)
  next
    assume "v = [42]"
    with w have "w = (92 # u) @ 42 # 123 # y" by simp
    with n have "\<not> bad_pair 42 123" by (metis no_argument_pair)
    then show False by (simp add: bad_pair_def)
  qed
qed

lemma pair_passes:
  assumes "no_argument s"
  shows "re_sub pat_mathrm t p s = s" "re_sub pat_text t p s = s"
    "re_sub pat_xrightarrow t p s = s" "re_sub pat_begin_end t p s = s"
    "re_sub pat_artifact t p s = s" "re_sub pat_command_arg t p s = s"
  using assms pair_mathrm pair_text pair_xrightarrow pair_begin_end pair_artifact pair_command_arg
  by (blast intro!: re_sub_needs_pair)+

lemma unwrap_no_argument: "no_argument s \<Longrightarrow> unwrap s = s"
  by (simp add: unwrap_def pair_passes)





section \<open>The segments of a document\<close>

text \<open>The concatenation of the \<open>content\<close> fields of a list of segments.\<close>

definition contents :: "segment list \<Rightarrow> ustring" where
  "contents segs = concat (map snd segs)"

text \<open>
  A document without unterminated delimiters is a text, then formulas with a text behind
  each: an inline formula \<open>$f$\<close> or a block formula \<open>$$b$$\<close> (\<open>$\<close> is 36).
  \<open>render\<close> writes the document out.
\<close>

datatype formula = Inline ustring | Block ustring

fun delimited :: "formula \<Rightarrow> ustring" where
  "delimited (Inline f) = 36 # f @ [36]"
| "delimited (Block b) = 36 # 36 # b @ [36, 36]"

fun render :: "ustring \<Rightarrow> (formula \<times> ustring) list \<Rightarrow> ustring" where
  "render t [] = t"
| "render t ((f, t') # rest) = t @ delimited f @ render t' rest"

text \<open>
  No text and no formula holds a \<open>$\<close>, an inline formula is not empty, and the text
  behind an inline formula is not empty unless the formula is the last one.
\<close>

fun document_ok :: "ustring \<Rightarrow> (formula \<times> ustring) list \<Rightarrow> bool" where
  "document_ok t [] = (36 \<notin> set t)"
| "document_ok t ((Inline f, t') # rest) =
     (36 \<notin> set t \<and> f \<noteq> [] \<and> 36 \<notin> set f \<and> (rest = [] \<or> t' \<noteq> []) \<and> document_ok t' rest)"
| "document_ok t ((Block b, t') # rest) =
     (36 \<notin> set t \<and> 36 \<notin> set b \<and> document_ok t' rest)"

text \<open>
  The segments that the specification gives for a document: a text that is not all white
  space is one segment and is unchanged; an inline formula is one segment, the result of
  the converter on what stands between the delimiters; a block formula gives one segment
  for each non-blank line of the result of the converter on the stripped body.
\<close>

definition text_seg :: "ustring \<Rightarrow> segment list" where
  "text_seg t = (if strip t \<noteq> [] then [(text_segment, t)] else [])"

fun formula_segs :: "formula \<Rightarrow> segment list" where
  "formula_segs (Inline f) = [(inline_formula, convert_latex_to_simple f)]"
| "formula_segs (Block b) =
     concat (map (\<lambda>line. if strip line \<noteq> [] then [(block_formula, strip line)] else [])
               (split_on 10 (convert_latex_to_simple (strip b))))"

fun spec_segments :: "ustring \<Rightarrow> (formula \<times> ustring) list \<Rightarrow> segment list" where
  "spec_segments t [] = text_seg t"
| "spec_segments t ((f, t') # rest) = text_seg t @ formula_segs f @ spec_segments t' rest"

subsection \<open>The matches of the two patterns\<close>

lemma take2_iff: "take (Suc (Suc 0)) s = [a, b] \<longleftrightarrow> (\<exists>r. s = a # b # r)"
proof (cases s)
  case Nil
  then show ?thesis by simp
next
  case (Cons x xs)
  then show ?thesis by (cases xs) auto
qed

lemma four: "(4::nat) = Suc (Suc (Suc (Suc 0)))"
  by simp

lemma take1_iff: "take (Suc 0) s = [a] \<longleftrightarrow> (\<exists>r. s = a # r)"
  by (cases s) auto

lemma takeWhile_True: "takeWhile (\<lambda>c. True) s = s"
  by (induction s) auto

lemma block_None: "(\<And>r. s \<noteq> 36 # 36 # r) \<Longrightarrow> first_match pat_block p s = None"
  by (simp add: first_match_def pat_block_def ustr_def take2_iff)

lemma inline_None: "(\<And>r. s \<noteq> 36 # r) \<Longrightarrow> first_match pat_inline p s = None"
  by (simp add: first_match_def pat_inline_def ustr_def take1_iff)

lemma matches_Seq_Lit:
  "take (length w) s = w \<Longrightarrow>
     matches (Seq (Lit w) r) (p, s, g) = matches r (prev_after p w, drop (length w) s, g)"
  by (simp add: consume_def)

lemma matches_Group_Cons:
  "matches r (p, s, g) = (p', s', g') # ms \<Longrightarrow>
     \<exists>ms'. matches (Group r) (p, s, g) = (p', s', Some (take (length s - length s') s)) # ms'"
  by simp

lemma first_match_Cons:
  "matches r (p, s, None) = (p', s', g') # ms \<Longrightarrow>
     first_match r p s = Some (length s - length s', g')"
  by (simp add: first_match_def)

lemma concat_map_first:
  assumes "\<And>j. j < k \<Longrightarrow> F j = []" and "k < n"
  shows "concat (map F [0 ..< n]) = F k @ concat (map F [Suc k ..< n])"
proof -
  from assms(2) have "[0 ..< n] = [0 ..< k] @ k # [Suc k ..< n]"
    by (metis less_imp_le_nat upt_add_eq_append upt_conv_Cons zero_le le_add_diff_inverse)
  moreover have "concat (map F [0 ..< k]) = []" using assms(1) by simp
  ultimately show ?thesis by simp
qed

lemma lazy_then_lit:
  assumes "\<And>j. j < k \<Longrightarrow> take (length w) (drop j s) \<noteq> w"
    and "take (length w) (drop k s) = w" and "k \<le> length s"
  shows "\<exists>ms. matches (Seq (Lazy (\<lambda>c. True)) (Lit w)) (p, s, g)
           = consume (consume (p, s, g) k) (length w) # ms"
proof -
  let ?F = "\<lambda>j. matches (Lit w) (consume (p, s, g) j)"
  have F: "?F j = (if take (length w) (drop j s) = w then [consume (consume (p, s, g) j) (length w)] else [])" for j
    by (simp add: consume_def)
  have "matches (Seq (Lazy (\<lambda>c. True)) (Lit w)) (p, s, g) = concat (map ?F [0 ..< Suc (length s)])"
    by (simp add: comp_def takeWhile_True del: upt_Suc)
  also have "\<dots> = ?F k @ concat (map ?F [Suc k ..< Suc (length s)])"
    by (rule concat_map_first) (use assms in \<open>simp_all add: F\<close>)
  finally show ?thesis using assms(2) by (simp add: F)
qed

lemma rep_then_lit:
  assumes "length (takeWhile P s) = k" and "m \<le> k" and "take (length w) (drop k s) = w"
  shows "\<exists>ms. matches (Seq (Rep P m None) (Lit w)) (p, s, g)
           = consume (consume (p, s, g) k) (length w) # ms"
proof -
  from assms(2) have "rev [m ..< Suc k] = k # rev [m ..< k]" by simp
  with assms(1,3) show ?thesis by (simp add: Let_def consume_def del: upt_Suc)
qed

lemma pat_block_Seq:
  "pat_block = Group (Seq (Lit [36, 36]) (Seq (Lazy (\<lambda>c. True)) (Lit [36, 36])))"
  by (simp add: pat_block_def ustr_def)

lemma pat_inline_Seq:
  "pat_inline = Group (Seq (Lit [36]) (Seq (Rep (not_char 36) 1 None) (Lit [36])))"
  by (simp add: pat_inline_def ustr_def)

lemma block_match:
  assumes "36 \<notin> set b"
  shows "first_match pat_block p (36 # 36 # b @ 36 # 36 # rest)
     = Some (length b + 4, Some (36 # 36 # b @ [36, 36]))"
proof -
  let ?s1 = "b @ 36 # 36 # rest"
  let ?s = "36 # 36 # ?s1"
  have 1: "take (length [36, 36::nat]) (drop j ?s1) \<noteq> [36, 36]" if "j < length b" for j
  proof -
    from that have "drop j ?s1 = b ! j # drop (Suc j) ?s1"
      by (metis Cons_nth_drop_Suc length_append nth_append trans_less_add1)
    moreover from that assms have "b ! j \<noteq> 36" by (metis nth_mem)
    ultimately show ?thesis by simp
  qed
  have 2: "take (length [36, 36::nat]) (drop (length b) ?s1) = [36, 36]" by simp
  have 3: "length b \<le> length ?s1" by simp
  from lazy_then_lit[of "length b" "[36, 36]" ?s1 "Some 36" None, OF 1 2 3] obtain ms where
    m: "matches (Seq (Lazy (\<lambda>c. True)) (Lit [36, 36])) (Some 36, ?s1, None)
          = consume (consume (Some 36, ?s1, None) (length b)) (length [36, 36::nat]) # ms"
    by blast
  have c: "consume (consume (Some 36, ?s1, None) (length b)) (length [36, 36::nat]) = (Some 36, rest, None)"
    by (simp add: consume_def prev_after_def)
  have "matches (Seq (Lit [36, 36]) (Seq (Lazy (\<lambda>c. True)) (Lit [36, 36]))) (p, ?s, None)
          = matches (Seq (Lazy (\<lambda>c. True)) (Lit [36, 36])) (prev_after p [36, 36], drop (length [36, 36::nat]) ?s, None)"
    by (rule matches_Seq_Lit) simp
  also have "\<dots> = (Some 36, rest, None) # ms"
    using m[unfolded c] by (simp add: prev_after_def del: matches.simps)
  finally have "matches (Seq (Lit [36, 36]) (Seq (Lazy (\<lambda>c. True)) (Lit [36, 36]))) (p, ?s, None)
          = (Some 36, rest, None) # ms" .
  from matches_Group_Cons[OF this] obtain ms' where
    "matches pat_block (p, ?s, None) = (Some 36, rest, Some (take (length ?s - length rest) ?s)) # ms'"
    unfolding pat_block_Seq by blast
  moreover have "take (4 + length b) ?s = 36 # 36 # b @ [36, 36]"
    by (simp add: four)
  ultimately show ?thesis by (simp add: first_match_Cons)
qed

lemma inline_match:
  assumes "f \<noteq> []" "36 \<notin> set f"
  shows "first_match pat_inline p (36 # f @ 36 # rest) = Some (length f + 2, Some (36 # f @ [36]))"
proof -
  let ?s1 = "f @ 36 # rest"
  let ?s = "36 # ?s1"
  from assms(2) have "takeWhile (not_char 36) ?s1 = f"
    by (induction f) (auto simp: not_char_def)
  then have 1: "length (takeWhile (not_char 36) ?s1) = length f" by simp
  from assms(1) have 2: "1 \<le> length f" by (cases f) simp_all
  have 3: "take (length [36::nat]) (drop (length f) ?s1) = [36]" by simp
  from rep_then_lit[of "not_char 36" ?s1 "length f" 1 "[36]" "Some 36" None, OF 1 2 3] obtain ms where
    m: "matches (Seq (Rep (not_char 36) 1 None) (Lit [36])) (Some 36, ?s1, None)
          = consume (consume (Some 36, ?s1, None) (length f)) (length [36::nat]) # ms"
    by blast
  have c: "consume (consume (Some 36, ?s1, None) (length f)) (length [36::nat]) = (Some 36, rest, None)"
    by (simp add: consume_def prev_after_def)
  have "matches (Seq (Lit [36]) (Seq (Rep (not_char 36) 1 None) (Lit [36]))) (p, ?s, None)
          = matches (Seq (Rep (not_char 36) 1 None) (Lit [36])) (prev_after p [36], drop (length [36::nat]) ?s, None)"
    by (rule matches_Seq_Lit) simp
  also have "\<dots> = (Some 36, rest, None) # ms"
    using m[unfolded c] by (simp add: prev_after_def del: matches.simps)
  finally have "matches (Seq (Lit [36]) (Seq (Rep (not_char 36) 1 None) (Lit [36]))) (p, ?s, None)
          = (Some 36, rest, None) # ms" .
  from matches_Group_Cons[OF this] obtain ms' where
    "matches pat_inline (p, ?s, None) = (Some 36, rest, Some (take (length ?s - length rest) ?s)) # ms'"
    unfolding pat_inline_Seq by blast
  from first_match_Cons[OF this] show ?thesis by simp
qed

subsection \<open>The split at the block formulas\<close>

text \<open>The pieces of \<open>re.split\<close> with the pattern for blocks; \<open>acc\<close> is the piece that
  has been read so far.\<close>

fun block_split :: "ustring \<Rightarrow> ustring \<Rightarrow> (formula \<times> ustring) list \<Rightarrow> ustring list" where
  "block_split acc t [] = [acc @ t]"
| "block_split acc t ((Inline f, t') # rest) = block_split (acc @ t @ 36 # f @ [36]) t' rest"
| "block_split acc t ((Block b, t') # rest) =
     (acc @ t) # (36 # 36 # b @ [36, 36]) # block_split [] t' rest"

lemma re_split_from_match:
  "first_match r p s = Some (n, Some x) \<Longrightarrow> 0 < n \<Longrightarrow>
     re_split_from r p acc s = acc # x # re_split_from r (Some (s ! (n - 1))) [] (drop n s)"
  by (cases s) (auto dest: first_match_le)

lemma split_block_text:
  "36 \<notin> set u \<Longrightarrow> \<exists>p'. re_split_from pat_block p acc (u @ s) = re_split_from pat_block p' (acc @ u) s"
proof (induction u arbitrary: p acc)
  case Nil
  show ?case by auto
next
  case (Cons c u)
  then have "first_match pat_block p (c # u @ s) = None" by (intro block_None) auto
  moreover from Cons obtain p' where
    "re_split_from pat_block (Some c) (acc @ [c]) (u @ s) = re_split_from pat_block p' ((acc @ [c]) @ u) s"
    by (metis list.set_intros(2))
  ultimately show ?case by auto
qed

lemma split_block_dollar:
  "(\<And>r. s \<noteq> 36 # r) \<Longrightarrow>
     re_split_from pat_block p acc (36 # s) = re_split_from pat_block (Some 36) (acc @ [36]) s"
proof -
  assume "\<And>r. s \<noteq> 36 # r"
  then have "first_match pat_block p (36 # s) = None" by (intro block_None) auto
  then show ?thesis by simp
qed

lemma split_block_block:
  assumes "36 \<notin> set b"
  shows "re_split_from pat_block p acc (36 # 36 # b @ 36 # 36 # rest)
     = acc # (36 # 36 # b @ [36, 36]) # re_split_from pat_block (Some 36) [] rest"
proof -
  let ?s = "36 # 36 # b @ 36 # 36 # rest"
  let ?u = "36 # 36 # b @ [36, 36]"
  have a: "?s ! (length b + 4 - 1) = 36" by (simp add: four nth_append)
  have d: "drop (length b + 4) ?s = rest" by (simp add: four)
  have m: "first_match pat_block p ?s = Some (length b + 4, Some ?u)"
    by (rule block_match[OF assms])
  have "re_split_from pat_block p acc ?s
     = acc # ?u # re_split_from pat_block (Some (?s ! (length b + 4 - 1))) [] (drop (length b + 4) ?s)"
    by (rule re_split_from_match[OF m]) simp
  then show ?thesis by (simp only: a d)
qed

lemma block_None_Nil: "first_match pat_block p [] = None"
  by (rule block_None) simp

lemma split_block_end: "re_split_from pat_block p acc [] = [acc]"
  by (simp add: block_None_Nil)

lemma render_hd:
  "document_ok t fs \<Longrightarrow> fs = [] \<or> t \<noteq> [] \<Longrightarrow> render t fs \<noteq> 36 # r"
proof (cases fs)
  case Nil
  assume "document_ok t fs"
  with Nil show ?thesis by auto
next
  case (Cons a list)
  assume "document_ok t fs" "fs = [] \<or> t \<noteq> []"
  with Cons show ?thesis by (cases a; cases "fst a"; cases t) auto
qed

lemma re_split_block:
  "document_ok t fs \<Longrightarrow> re_split_from pat_block p acc (render t fs) = block_split acc t fs"
proof (induction acc t fs arbitrary: p rule: block_split.induct)
  case (1 acc t)
  then have "36 \<notin> set t" by simp
  from split_block_text[OF this, of p acc "[]"] show ?case by (auto simp: block_None_Nil)
next
  case (2 acc t f t' rest)
  then have ok: "36 \<notin> set t" "f \<noteq> []" "36 \<notin> set f" "rest = [] \<or> t' \<noteq> []" "document_ok t' rest"
    by simp_all
  let ?r = "render t' rest"
  from split_block_text[OF ok(1), of p acc "36 # f @ 36 # ?r"] obtain p1 where
    1: "re_split_from pat_block p acc (t @ 36 # f @ 36 # ?r)
          = re_split_from pat_block p1 (acc @ t) (36 # f @ 36 # ?r)" by blast
  from ok(2,3) have "\<And>r. f @ 36 # ?r \<noteq> 36 # r" by (cases f) auto
  then have 2: "re_split_from pat_block p1 (acc @ t) (36 # f @ 36 # ?r)
          = re_split_from pat_block (Some 36) ((acc @ t) @ [36]) (f @ 36 # ?r)"
    by (rule split_block_dollar)
  from split_block_text[OF ok(3), of "Some 36" "(acc @ t) @ [36]" "36 # ?r"] obtain p2 where
    3: "re_split_from pat_block (Some 36) ((acc @ t) @ [36]) (f @ 36 # ?r)
          = re_split_from pat_block p2 (((acc @ t) @ [36]) @ f) (36 # ?r)" by blast
  from render_hd[OF ok(5,4)] have "\<And>r. ?r \<noteq> 36 # r" by blast
  then have 4: "re_split_from pat_block p2 (((acc @ t) @ [36]) @ f) (36 # ?r)
          = re_split_from pat_block (Some 36) ((((acc @ t) @ [36]) @ f) @ [36]) ?r"
    by (rule split_block_dollar)
  from "2.IH"[OF ok(5), of "Some 36"]
  have 5: "re_split_from pat_block (Some 36) (acc @ t @ 36 # f @ [36]) ?r
          = block_split (acc @ t @ 36 # f @ [36]) t' rest" .
  from 1 2 3 4 5 show ?case by simp
next
  case (3 acc t b t' rest)
  then have ok: "36 \<notin> set t" "36 \<notin> set b" "document_ok t' rest"
    by simp_all
  let ?r = "render t' rest"
  from split_block_text[OF ok(1), of p acc "36 # 36 # b @ 36 # 36 # ?r"] obtain p1 where
    1: "re_split_from pat_block p acc (t @ 36 # 36 # b @ 36 # 36 # ?r)
          = re_split_from pat_block p1 (acc @ t) (36 # 36 # b @ 36 # 36 # ?r)" by blast
  note 2 = split_block_block[OF ok(2), of p1 "acc @ t" ?r]
  note 3 = "3.IH"[OF ok(3), of "Some 36"]
  from 1 2 3 show ?case by simp
qed

subsection \<open>The split at the inline formulas\<close>

text \<open>A piece between two blocks: texts with an inline formula behind each, and a last
  text.\<close>

fun chunk :: "(ustring \<times> ustring) list \<Rightarrow> ustring \<Rightarrow> ustring" where
  "chunk [] t = t"
| "chunk ((t1, f) # tfs) t = t1 @ 36 # f @ 36 # chunk tfs t"

definition chunk_ok :: "(ustring \<times> ustring) list \<Rightarrow> bool" where
  "chunk_ok tfs = list_all (\<lambda>(t1, f). 36 \<notin> set t1 \<and> f \<noteq> [] \<and> 36 \<notin> set f) tfs"

fun inline_split :: "ustring \<Rightarrow> (ustring \<times> ustring) list \<Rightarrow> ustring \<Rightarrow> ustring list" where
  "inline_split acc [] t = [acc @ t]"
| "inline_split acc ((t1, f) # tfs) t = (acc @ t1) # (36 # f @ [36]) # inline_split [] tfs t"

lemma split_inline_text:
  "36 \<notin> set u \<Longrightarrow> \<exists>p'. re_split_from pat_inline p acc (u @ s) = re_split_from pat_inline p' (acc @ u) s"
proof (induction u arbitrary: p acc)
  case Nil
  show ?case by auto
next
  case (Cons c u)
  then have "first_match pat_inline p (c # u @ s) = None" by (intro inline_None) auto
  moreover from Cons obtain p' where
    "re_split_from pat_inline (Some c) (acc @ [c]) (u @ s) = re_split_from pat_inline p' ((acc @ [c]) @ u) s"
    by (metis list.set_intros(2))
  ultimately show ?case by auto
qed

lemma split_inline_formula:
  assumes "f \<noteq> []" "36 \<notin> set f"
  shows "re_split_from pat_inline p acc (36 # f @ 36 # rest)
     = acc # (36 # f @ [36]) # re_split_from pat_inline (Some 36) [] rest"
proof -
  let ?s = "36 # f @ 36 # rest"
  let ?u = "36 # f @ [36]"
  have a: "?s ! (length f + 2 - 1) = 36" by (simp add: nth_append)
  have d: "drop (length f + 2) ?s = rest" by simp
  have m: "first_match pat_inline p ?s = Some (length f + 2, Some ?u)"
    by (rule inline_match[OF assms])
  have "re_split_from pat_inline p acc ?s
     = acc # ?u # re_split_from pat_inline (Some (?s ! (length f + 2 - 1))) [] (drop (length f + 2) ?s)"
    by (rule re_split_from_match[OF m]) simp
  then show ?thesis by (simp only: a d)
qed

lemma inline_None_Nil: "first_match pat_inline p [] = None"
  by (rule inline_None) simp

lemma split_inline_end: "re_split_from pat_inline p acc [] = [acc]"
  by (simp add: inline_None_Nil)

lemma re_split_inline:
  "chunk_ok tfs \<Longrightarrow> 36 \<notin> set t \<Longrightarrow>
     re_split_from pat_inline p acc (chunk tfs t) = inline_split acc tfs t"
proof (induction acc tfs t arbitrary: p rule: inline_split.induct)
  case (1 acc t)
  from split_inline_text[OF "1.prems"(2), of p acc "[]"] show ?case
    by (auto simp: inline_None_Nil)
next
  case (2 acc t1 f tfs t)
  then have ok: "36 \<notin> set t1" "f \<noteq> []" "36 \<notin> set f" "chunk_ok tfs" "36 \<notin> set t"
    by (simp_all add: chunk_ok_def)
  let ?r = "chunk tfs t"
  from split_inline_text[OF ok(1), of p acc "36 # f @ 36 # ?r"] obtain p1 where
    1: "re_split_from pat_inline p acc (t1 @ 36 # f @ 36 # ?r)
          = re_split_from pat_inline p1 (acc @ t1) (36 # f @ 36 # ?r)" by blast
  note 2 = split_inline_formula[OF ok(2,3), of p1 "acc @ t1" ?r]
  note 3 = "2.IH"[OF ok(4,5), of "Some 36"]
  from 1 2 3 show ?case by simp
qed

subsection \<open>The segments of the pieces\<close>

lemma parse_inline_text: "36 \<notin> set u \<Longrightarrow> parse_inline u = text_seg u"
  by (cases u) (auto simp: parse_inline_def text_seg_def startswith_def ustr_def strip_def)

lemma parse_inline_formula:
  "parse_inline (36 # f @ [36]) = [(inline_formula, convert_latex_to_simple f)]"
  by (simp add: parse_inline_def startswith_def endswith_def ustr_def slice_end_def)

definition inline_segs :: "(ustring \<times> ustring) list \<Rightarrow> segment list" where
  "inline_segs tfs =
     concat (map (\<lambda>(t1, f). text_seg t1 @ [(inline_formula, convert_latex_to_simple f)]) tfs)"

lemma inline_segs_simps:
  "inline_segs [] = []"
  "inline_segs ((t1, f) # tfs) = text_seg t1 @ (inline_formula, convert_latex_to_simple f) # inline_segs tfs"
  "inline_segs (tfs @ tfs') = inline_segs tfs @ inline_segs tfs'"
  by (simp_all add: inline_segs_def)

lemma parse_inline_split:
  "chunk_ok tfs \<Longrightarrow> 36 \<notin> set t \<Longrightarrow>
     concat (map parse_inline (inline_split [] tfs t)) = inline_segs tfs @ text_seg t"
proof (induction tfs)
  case Nil
  then show ?case by (simp add: parse_inline_text inline_segs_simps)
next
  case (Cons a tfs)
  obtain t1 f where a: "a = (t1, f)" by (cases a)
  with Cons.prems have ok: "36 \<notin> set t1" "chunk_ok tfs" by (simp_all add: chunk_ok_def)
  from Cons.IH[OF ok(2) Cons.prems(2)] ok(1) show ?case
    by (simp add: a parse_inline_text parse_inline_formula inline_segs_simps)
qed

lemma chunk_not_block:
  "chunk_ok tfs \<Longrightarrow> 36 \<notin> set t \<Longrightarrow> chunk tfs t \<noteq> 36 # 36 # r"
proof (cases tfs)
  case Nil
  assume "36 \<notin> set t"
  with Nil show ?thesis by auto
next
  case (Cons a list)
  assume "chunk_ok tfs"
  with Cons show ?thesis
    by (cases a; cases "fst a"; cases "snd a") (auto simp: chunk_ok_def)
qed

lemma chunk_empty: "chunk tfs t = [] \<Longrightarrow> tfs = [] \<and> t = []"
  by (cases tfs) auto

lemma parse_part_chunk:
  assumes "chunk_ok tfs" "36 \<notin> set t"
  shows "parse_part (chunk tfs t) = inline_segs tfs @ text_seg t"
proof (cases "chunk tfs t = []")
  case True
  then have "tfs = []" "t = []" by (auto dest: chunk_empty)
  then show ?thesis by (simp add: parse_part_def inline_segs_simps text_seg_def strip_def)
next
  case False
  from chunk_not_block[OF assms] have "\<not> startswith (chunk tfs t) (ustr ''$$'')"
    by (simp add: startswith_def ustr_def take2_iff)
  with False show ?thesis
    by (simp add: parse_part_def re_split_def re_split_inline[OF assms] parse_inline_split[OF assms])
qed

lemma parse_part_block:
  "parse_part (36 # 36 # b @ [36, 36]) = formula_segs (Block b)"
  by (simp add: parse_part_def startswith_def endswith_def ustr_def slice_end_def)

lemma chunk_append: "chunk (tfs @ tfs') u = chunk tfs [] @ chunk tfs' u"
  by (induction tfs) auto

lemma parse_block_split:
  "document_ok t fs \<Longrightarrow> chunk_ok tfs \<Longrightarrow>
     concat (map parse_part (block_split (chunk tfs []) t fs)) = inline_segs tfs @ spec_segments t fs"
proof (induction fs arbitrary: tfs t)
  case Nil
  then have t: "36 \<notin> set t" by simp
  have "chunk tfs [] @ t = chunk tfs t" using chunk_append[of tfs "[]" t] by simp
  with parse_part_chunk[OF Nil.prems(2) t] show ?case by simp
next
  case (Cons a fs)
  obtain F t' where a: "a = (F, t')" by (cases a)
  show ?case
  proof (cases F)
    case (Inline f)
    with Cons.prems(1) a have ok: "36 \<notin> set t" "document_ok t' fs" and f: "f \<noteq> []" "36 \<notin> set f"
      by simp_all
    with Cons.prems(2) have c: "chunk_ok (tfs @ [(t, f)])" by (simp add: chunk_ok_def)
    have e: "chunk (tfs @ [(t, f)]) [] = chunk tfs [] @ t @ 36 # f @ [36]"
      by (simp add: chunk_append)
    from Cons.IH[OF ok(2) c] show ?thesis
      by (simp add: a Inline e inline_segs_simps)
  next
    case (Block b)
    with Cons.prems(1) a have ok: "36 \<notin> set t" "document_ok t' fs" by simp_all
    have e: "chunk tfs [] @ t = chunk tfs t" using chunk_append[of tfs "[]" t] by simp
    have n: "chunk_ok []" by (simp add: chunk_ok_def)
    from Cons.IH[OF ok(2) n] parse_part_chunk[OF Cons.prems(2) ok(1)] show ?thesis
      by (simp add: a Block e parse_part_block inline_segs_simps del: formula_segs.simps)
  qed
qed

lemma segments_of_document:
  assumes "document_ok t fs"
  shows "parse_content (render t fs) = spec_segments t fs"
proof -
  have n: "chunk_ok []" by (simp add: chunk_ok_def)
  from parse_block_split[OF assms n] re_split_block[OF assms, of None "[]"]
  show ?thesis by (simp add: parse_content_def re_split_def inline_segs_simps)
qed

text \<open>The concatenation of the contents that the specification gives.\<close>

definition kept_text :: "ustring \<Rightarrow> ustring" where
  "kept_text t = (if strip t \<noteq> [] then t else [])"

fun formula_text :: "formula \<Rightarrow> ustring" where
  "formula_text (Inline f) = convert_latex_to_simple f"
| "formula_text (Block b) =
     concat (map strip (filter (\<lambda>line. strip line \<noteq> [])
                          (split_on 10 (convert_latex_to_simple (strip b)))))"

fun spec_contents :: "ustring \<Rightarrow> (formula \<times> ustring) list \<Rightarrow> ustring" where
  "spec_contents t [] = kept_text t"
| "spec_contents t ((f, t') # rest) = kept_text t @ formula_text f @ spec_contents t' rest"

lemma contents_append: "contents (a @ b) = contents a @ contents b"
  by (simp add: contents_def)

lemma contents_text_seg: "contents (text_seg t) = kept_text t"
  by (simp add: contents_def text_seg_def kept_text_def)

lemma contents_lines:
  "contents (concat (map (\<lambda>line. if strip line \<noteq> [] then [(block_formula, strip line)] else []) ls))
     = concat (map strip (filter (\<lambda>line. strip line \<noteq> []) ls))"
  by (induction ls) (simp_all add: contents_def)

lemma contents_formula_segs: "contents (formula_segs f) = formula_text f"
  by (cases f) (simp_all add: contents_lines, simp add: contents_def)

lemma contents_spec_segments: "contents (spec_segments t fs) = spec_contents t fs"
  by (induction t fs rule: spec_segments.induct)
     (simp_all add: contents_append contents_text_seg contents_formula_segs del: formula_segs.simps)

text \<open>
  The condition on the text behind an inline formula is needed: when a block follows an
  inline formula directly, the closing \<open>$\<close> of the one and the first \<open>$\<close> of the
  other open a block.
\<close>

lemma touching_formulas:
  "parse_content (ustr ''$a$$$b$$'') = [(text_segment, ustr ''$a''), (block_formula, ustr ''$b'')]"
  by code_simp

text \<open>
  C6, as the specification states it, does not hold. In \<open>$a$ $b$\<close> the blank between
  the two formulas is not a delimiter, and no segment holds it: a text that is all white
  space gives no segment. In \<open>${x}{=}$\<close> the character \<open>x\<close> (120) stands between the
  delimiters, and the only segment holds \<open>=\<close>: the content of a formula segment is the
  result of the converter, not the text between the delimiters.
\<close>

theorem segmenter_counterexample:
  "parse_content (ustr ''$a$ $b$'') = [(inline_formula, ustr ''a''), (inline_formula, ustr ''b'')]
   \<and> contents (parse_content (ustr ''$a$ $b$'')) = ustr ''ab''
   \<and> filter (\<lambda>c. c \<noteq> 36) (ustr ''$a$ $b$'') = ustr ''a b''
   \<and> parse_content (ustr ''${x}{=}$'') = [(inline_formula, ustr ''='')]
   \<and> list_ex (\<lambda>c. c = 120) (ustr ''${x}{=}$'')
   \<and> \<not> list_ex (\<lambda>c. c = 120) (contents (parse_content (ustr ''${x}{=}$'')))"
  by code_simp

text \<open>
  C6, amended. For a document without unterminated delimiters, in which no text and no
  formula holds a \<open>$\<close>, no inline formula is empty and a non-empty text stands behind
  every inline formula but the last formula, the segmenter returns the segments of the
  specification, in order. The concatenation of their contents is: every text that is
  not all white space, unchanged, and for every formula the result of the converter (for
  a block, its non-blank lines, stripped).
\<close>

theorem segmenter_contents:
  assumes "document_ok t fs"
  shows "parse_content (render t fs) = spec_segments t fs
     \<and> contents (parse_content (render t fs)) = spec_contents t fs"
  using segments_of_document[OF assms] by (simp add: contents_spec_segments)

theorem segmenter_contents_witness:
  "document_ok (ustr ''Mix '')
      [(Inline (ustr ''H_2''), ustr '' ''), (Block (ustr '' 2 H_2 + O_2  ''), ustr '' done'')]
   \<and> render (ustr ''Mix '')
      [(Inline (ustr ''H_2''), ustr '' ''), (Block (ustr '' 2 H_2 + O_2  ''), ustr '' done'')]
       = ustr ''Mix $H_2$ $$ 2 H_2 + O_2  $$ done''
   \<and> parse_content (ustr ''Mix $H_2$ $$ 2 H_2 + O_2  $$ done'')
       = [(text_segment, ustr ''Mix ''), (inline_formula, ustr ''H_2''),
          (block_formula, ustr ''2 H_2 + O_2''), (text_segment, ustr '' done'')]
   \<and> contents (parse_content (ustr ''Mix $H_2$ $$ 2 H_2 + O_2  $$ done''))
       = ustr ''Mix H_22 H_2 + O_2 done''"
proof -
  have 1: "document_ok (ustr ''Mix '')
      [(Inline (ustr ''H_2''), ustr '' ''), (Block (ustr '' 2 H_2 + O_2  ''), ustr '' done'')]"
    by code_simp
  have 2: "render (ustr ''Mix '')
      [(Inline (ustr ''H_2''), ustr '' ''), (Block (ustr '' 2 H_2 + O_2  ''), ustr '' done'')]
       = ustr ''Mix $H_2$ $$ 2 H_2 + O_2  $$ done''"
    by code_simp
  have 3: "spec_segments (ustr ''Mix '')
      [(Inline (ustr ''H_2''), ustr '' ''), (Block (ustr '' 2 H_2 + O_2  ''), ustr '' done'')]
       = [(text_segment, ustr ''Mix ''), (inline_formula, ustr ''H_2''),
          (block_formula, ustr ''2 H_2 + O_2''), (text_segment, ustr '' done'')]"
    by code_simp
  have 4: "spec_contents (ustr ''Mix '')
      [(Inline (ustr ''H_2''), ustr '' ''), (Block (ustr '' 2 H_2 + O_2  ''), ustr '' done'')]
       = ustr ''Mix H_22 H_2 + O_2 done''"
    by code_simp
  from segmenter_contents [OF 1, unfolded 2 3 4] 1 2 show ?thesis by blast
qed

end
